theory Spec2Isabelle
  imports Main "HOL-Library.Word"
begin

unbundle bit_operations_syntax

section \<open>Bytes, byte order and pointers\<close>

text \<open>
  The readers of \<^verbatim>\<open>MessageReadersWriters.h\<close> work on \<^verbatim>\<open>char\<close> buffers. A byte is an
  8-bit word, a buffer is a list of bytes, and \<^verbatim>\<open>size_t\<close> quantities (sizes, offsets)
  are natural numbers.
\<close>

type_synonym byte = "8 word"

text \<open>
  The integer readers \<^verbatim>\<open>memcpy\<close> received bytes into the storage of a host integer and
  convert with \<^verbatim>\<open>ntohs\<close>/\<^verbatim>\<open>ntohl\<close> afterwards, so the byte order of the host is part of
  the model.
\<close>

datatype endian = LittleEndian | BigEndian

text \<open>The \<open>n\<close> low bytes of a word, most significant first (network order).\<close>

fun be_bytes :: "nat \<Rightarrow> 'a::len word \<Rightarrow> byte list" where
  "be_bytes 0 v = []"
| "be_bytes (Suc n) v = ucast (drop_bit (8 * n) v) # be_bytes n v"

text \<open>The word whose network-order representation is the given byte list.\<close>

definition word_of_be :: "byte list \<Rightarrow> 'a::len word" where
  "word_of_be bs = foldl (\<lambda>acc b. push_bit 8 acc OR ucast b) 0 bs"

text \<open>The storage of an \<open>n\<close>-byte integer on the host, in address order, and back.\<close>

definition object_bytes :: "endian \<Rightarrow> nat \<Rightarrow> 'a::len word \<Rightarrow> byte list" where
  "object_bytes h n v = (case h of BigEndian \<Rightarrow> be_bytes n v | LittleEndian \<Rightarrow> rev (be_bytes n v))"

definition object_value :: "endian \<Rightarrow> byte list \<Rightarrow> 'a::len word" where
  "object_value h bs = (case h of BigEndian \<Rightarrow> word_of_be bs | LittleEndian \<Rightarrow> word_of_be (rev bs))"

text \<open>
  \<^verbatim>\<open>memcpy(dst + off, src, length src)\<close> on the storage \<open>dst\<close>. Writing past the end
  of \<open>dst\<close> is undefined in C; the readers never do it, because \<open>consumed\<close> never
  exceeds the width of the integer.
\<close>

definition memcpy :: "byte list \<Rightarrow> nat \<Rightarrow> byte list \<Rightarrow> byte list" where
  "memcpy dst off src = take off dst @ src @ drop (off + length src) dst"

text \<open>
  \<^verbatim>\<open>ntohs\<close>, \<^verbatim>\<open>ntohl\<close>: the storage of the argument holds a number in network order; the
  result is that number. \<^verbatim>\<open>htons\<close>, \<^verbatim>\<open>htonl\<close>: the integer whose storage is the network
  representation of the argument.
\<close>

definition ntohs :: "endian \<Rightarrow> 16 word \<Rightarrow> 16 word" where
  "ntohs h v = word_of_be (object_bytes h 2 v)"

definition ntohl :: "endian \<Rightarrow> 32 word \<Rightarrow> 32 word" where
  "ntohl h v = word_of_be (object_bytes h 4 v)"

definition htons :: "endian \<Rightarrow> 16 word \<Rightarrow> 16 word" where
  "htons h v = object_value h (be_bytes 2 v)"

definition htonl :: "endian \<Rightarrow> 32 word \<Rightarrow> 32 word" where
  "htonl h v = object_value h (be_bytes 4 v)"

text \<open>
  A pointer is a block of memory and an offset into it. The blocks a reader can point
  into are the buffers its caller passes to \<^verbatim>\<open>feed\<close> (numbered by the caller), the
  reader's own \<^verbatim>\<open>buffer\<close>, and the static empty string of a default-constructed
  \<^verbatim>\<open>StaticString\<close>.
\<close>

datatype block = CallerData nat | OwnBuffer | StaticEmpty

type_synonym pointer = "block \<times> nat"

definition ptr_add :: "pointer \<Rightarrow> nat \<Rightarrow> pointer" where
  "ptr_add p n = (fst p, snd p + n)"

text \<open>\<^verbatim>\<open>StaticString\<close>: a borrowed view, a pointer and a length; nothing is copied.\<close>

record StaticString =
  content :: pointer
  len :: nat

text \<open>The bytes a view denotes in a memory that gives every block its contents.\<close>

definition StaticString_bytes :: "(block \<Rightarrow> byte list) \<Rightarrow> StaticString \<Rightarrow> byte list" where
  "StaticString_bytes mem s = take (len s) (drop (snd (content s)) (mem (fst (content s))))"

text \<open>
  \<^verbatim>\<open>memchr(p, c, n)\<close> over the \<open>n\<close> bytes \<open>bs\<close> at \<open>p\<close>: the offset of the first
  occurrence of \<open>c\<close>, or \<open>None\<close> for \<^verbatim>\<open>NULL\<close>.
\<close>

fun memchr :: "byte list \<Rightarrow> byte \<Rightarrow> nat option" where
  "memchr [] c = None"
| "memchr (x # xs) c = (if x = c then Some 0 else map_option Suc (memchr xs c))"

section \<open>Integer readers\<close>

subsection \<open>\<^verbatim>\<open>Uint16Message\<close>\<close>

text \<open>
  \<^verbatim>\<open>consumed\<close> is a \<^verbatim>\<open>uint8_t\<close> that only takes the values 0, 1 and 2 (lemma
  \<open>Uint16Message_feed_bound\<close>), so it is a natural number here and
  \<^verbatim>\<open>sizeof(uint16_t) - consumed\<close> does not wrap. The constructor leaves \<^verbatim>\<open>val\<close>
  uninitialised: its initial contents are an argument.
\<close>

record Uint16Message =
  val :: "16 word"
  consumed :: nat

definition Uint16Message_init :: "16 word \<Rightarrow> Uint16Message" where
  "Uint16Message_init v0 = \<lparr>val = v0, consumed = 0\<rparr>"

definition Uint16Message_reset :: "Uint16Message \<Rightarrow> Uint16Message" where
  "Uint16Message_reset m = m\<lparr>consumed := 0\<rparr>"

definition Uint16Message_done :: "Uint16Message \<Rightarrow> bool" where
  "Uint16Message_done m \<longleftrightarrow> consumed m = 2"

definition Uint16Message_value :: "Uint16Message \<Rightarrow> 16 word" where
  "Uint16Message_value m = val m"

definition Uint16Message_feed :: "endian \<Rightarrow> Uint16Message \<Rightarrow> byte list \<Rightarrow> nat \<times> Uint16Message" where
  "Uint16Message_feed h m data =
     (let locallyConsumed = min (length data) (2 - consumed m);
          m1 = m\<lparr>val := object_value h
                 (memcpy (object_bytes h 2 (val m)) (consumed m) (take locallyConsumed data))\<rparr>;
          m2 = m1\<lparr>consumed := consumed m1 + locallyConsumed\<rparr>;
          m3 = (if locallyConsumed > 0 \<and> Uint16Message_done m2
                then m2\<lparr>val := ntohs h (val m2)\<rparr> else m2)
      in (locallyConsumed, m3))"

text \<open>\<^verbatim>\<open>generate(buf, val)\<close>: the two bytes written to \<open>buf\<close>.\<close>

definition Uint16Message_generate :: "endian \<Rightarrow> 16 word \<Rightarrow> byte list" where
  "Uint16Message_generate h v = object_bytes h 2 (htons h v)"

subsection \<open>\<^verbatim>\<open>Uint32Message\<close>\<close>

record Uint32Message =
  val :: "32 word"
  consumed :: nat

definition Uint32Message_init :: "32 word \<Rightarrow> Uint32Message" where
  "Uint32Message_init v0 = \<lparr>val = v0, consumed = 0\<rparr>"

definition Uint32Message_reset :: "Uint32Message \<Rightarrow> Uint32Message" where
  "Uint32Message_reset m = m\<lparr>consumed := 0\<rparr>"

definition Uint32Message_done :: "Uint32Message \<Rightarrow> bool" where
  "Uint32Message_done m \<longleftrightarrow> consumed m = 4"

definition Uint32Message_value :: "Uint32Message \<Rightarrow> 32 word" where
  "Uint32Message_value m = val m"

definition Uint32Message_feed :: "endian \<Rightarrow> Uint32Message \<Rightarrow> byte list \<Rightarrow> nat \<times> Uint32Message" where
  "Uint32Message_feed h m data =
     (let locallyConsumed = min (length data) (4 - consumed m);
          m1 = m\<lparr>val := object_value h
                 (memcpy (object_bytes h 4 (val m)) (consumed m) (take locallyConsumed data))\<rparr>;
          m2 = m1\<lparr>consumed := consumed m1 + locallyConsumed\<rparr>;
          m3 = (if locallyConsumed > 0 \<and> Uint32Message_done m2
                then m2\<lparr>val := ntohl h (val m2)\<rparr> else m2)
      in (locallyConsumed, m3))"

definition Uint32Message_generate :: "endian \<Rightarrow> 32 word \<Rightarrow> byte list" where
  "Uint32Message_generate h v = object_bytes h 4 (htonl h v)"

section \<open>Framed message readers\<close>

datatype State = READING_HEADER | READING_BODY | DONE | ERROR

text \<open>\<^verbatim>\<open>enum Error { TOO_LARGE }\<close>, stored in a \<^verbatim>\<open>uint8_t\<close>.\<close>

definition TOO_LARGE :: "8 word" where
  "TOO_LARGE = 0"

subsection \<open>\<^verbatim>\<open>ArrayMessage\<close>\<close>

text \<open>
  The constructor leaves \<^verbatim>\<open>error\<close> and the header reader's \<^verbatim>\<open>val\<close> uninitialised:
  their initial contents are arguments. The capacity of \<^verbatim>\<open>buffer\<close> and of \<^verbatim>\<open>result\<close>
  (\<^verbatim>\<open>reserve\<close>) has no effect on their contents and is not modelled.
\<close>

record ArrayMessage =
  toReserve :: "16 word"
  maxSize :: "16 word"
  headerReader :: Uint16Message
  state :: State
  error :: "8 word"
  buffer :: "byte list"
  result :: "StaticString list"

definition ArrayMessage_init :: "16 word \<Rightarrow> 8 word \<Rightarrow> ArrayMessage" where
  "ArrayMessage_init v0 e0 =
     \<lparr>toReserve = 0, maxSize = 0, headerReader = Uint16Message_init v0,
      state = READING_HEADER, error = e0, buffer = [], result = []\<rparr>"

definition ArrayMessage_reserve :: "ArrayMessage \<Rightarrow> 16 word \<Rightarrow> ArrayMessage" where
  "ArrayMessage_reserve m n = m\<lparr>toReserve := n\<rparr>"

definition ArrayMessage_setMaxSize :: "ArrayMessage \<Rightarrow> 16 word \<Rightarrow> ArrayMessage" where
  "ArrayMessage_setMaxSize m n = m\<lparr>maxSize := n\<rparr>"

definition ArrayMessage_reset :: "ArrayMessage \<Rightarrow> ArrayMessage" where
  "ArrayMessage_reset m =
     m\<lparr>state := READING_HEADER, headerReader := Uint16Message_reset (headerReader m),
       buffer := [], result := []\<rparr>"

definition ArrayMessage_done :: "ArrayMessage \<Rightarrow> bool" where
  "ArrayMessage_done m \<longleftrightarrow> state m = DONE \<or> state m = ERROR"

definition ArrayMessage_hasError :: "ArrayMessage \<Rightarrow> bool" where
  "ArrayMessage_hasError m \<longleftrightarrow> state m = ERROR"

definition ArrayMessage_errorCode :: "ArrayMessage \<Rightarrow> 8 word" where
  "ArrayMessage_errorCode m = error m"

definition ArrayMessage_value :: "ArrayMessage \<Rightarrow> StaticString list" where
  "ArrayMessage_value m = result m"

text \<open>
  The loop of \<^verbatim>\<open>parseBody(data, size)\<close>. \<open>bytes\<close> are the \<open>size\<close> bytes at \<open>data\<close>,
  \<open>start\<close> is the offset \<^verbatim>\<open>start - data\<close>, so that \<^verbatim>\<open>rest\<close> is
  \<open>length bytes - start\<close> and \<^verbatim>\<open>memchr\<close> searches \<open>drop start bytes\<close>.
\<close>

function parseBody_loop :: "pointer \<Rightarrow> byte list \<Rightarrow> nat \<Rightarrow> StaticString list \<Rightarrow> StaticString list" where
  "parseBody_loop data bytes start res =
     (case memchr (drop start bytes) 0 of
        None \<Rightarrow> res
      | Some n \<Rightarrow>
          parseBody_loop data bytes (start + n + 1)
            (res @ [\<lparr>content = ptr_add data start, len = n\<rparr>]))"
  by pat_completeness auto
termination
proof (relation "measure (\<lambda>(data, bytes, start, res). length bytes - start)")
  have found: "memchr xs c = Some n \<Longrightarrow> n < length xs" for xs c n
    by (induction xs arbitrary: n) (auto split: if_splits)
  fix data :: pointer and bytes :: "byte list" and start :: nat
    and res :: "StaticString list" and n :: nat
  assume "memchr (drop start bytes) 0 = Some n"
  from found [OF this] have "start + n < length bytes"
    by simp
  then show "((data, bytes, start + n + 1, res @ [\<lparr>content = ptr_add data start, len = n\<rparr>]),
              (data, bytes, start, res))
             \<in> measure (\<lambda>(data, bytes, start, res). length bytes - start)"
    by simp
qed simp

declare parseBody_loop.simps [simp del]

definition parseBody :: "ArrayMessage \<Rightarrow> pointer \<Rightarrow> byte list \<Rightarrow> ArrayMessage" where
  "parseBody m data bytes = m\<lparr>result := parseBody_loop data bytes 0 (result m)\<rparr>"

text \<open>
  One pass through the body of the \<^verbatim>\<open>while\<close> loop of \<^verbatim>\<open>feed\<close>: the \<^verbatim>\<open>switch\<close> on the
  state, from the reader and \<^verbatim>\<open>consumed\<close> to the new reader and the new \<^verbatim>\<open>consumed\<close>.
  \<open>data\<close> is the pointer the caller passes and \<open>bytes\<close> are the \<^verbatim>\<open>size\<close> bytes it
  points to. \<open>None\<close> is \<^verbatim>\<open>abort()\<close>.

  \<^verbatim>\<open>headerReader.value() - buffer.size()\<close> is unsigned; it does not wrap, because the
  buffer is shorter than the header value whenever the state is \<^verbatim>\<open>READING_BODY\<close>
  (lemma \<open>ArrayMessage_feed_wf\<close>).
\<close>

definition ArrayMessage_feed_body ::
  "endian \<Rightarrow> ArrayMessage \<Rightarrow> pointer \<Rightarrow> byte list \<Rightarrow> nat \<Rightarrow> (ArrayMessage \<times> nat) option" where
  "ArrayMessage_feed_body h m data bytes consumed' =
     (let current = ptr_add data consumed';
          rest = length bytes - consumed'
      in case state m of
        READING_HEADER \<Rightarrow>
          (let (n, hr) = Uint16Message_feed h (headerReader m) (drop consumed' bytes);
               m1 = m\<lparr>headerReader := hr\<rparr>;
               consumed1 = consumed' + n
           in if Uint16Message_done hr then
                if maxSize m1 > 0 \<and> Uint16Message_value hr > maxSize m1 then
                  Some (m1\<lparr>state := ERROR, error := TOO_LARGE\<rparr>, consumed1)
                else if Uint16Message_value hr = 0 then
                  Some (m1\<lparr>state := DONE\<rparr>, consumed1)
                else
                  Some (m1\<lparr>state := READING_BODY\<rparr>, consumed1)
              else Some (m1, consumed1))
      | READING_BODY \<Rightarrow>
          (let target = unat (Uint16Message_value (headerReader m))
           in if buffer m = [] \<and> rest \<ge> target then
                Some ((parseBody m current (take target (drop consumed' bytes)))\<lparr>state := DONE\<rparr>,
                      consumed' + target)
              else
                (let toConsume = min rest (target - length (buffer m));
                     m1 = m\<lparr>buffer := buffer m @ take toConsume (drop consumed' bytes)\<rparr>;
                     consumed1 = consumed' + toConsume
                 in if length (buffer m1) = target then
                      Some ((parseBody m1 (OwnBuffer, 0) (buffer m1))\<lparr>state := DONE\<rparr>, consumed1)
                    else Some (m1, consumed1)))
      | _ \<Rightarrow> None)"

text \<open>
  The \<^verbatim>\<open>while (consumed < size && !done())\<close> loop. \<open>None\<close> stands for a call that
  does not return (\<^verbatim>\<open>abort()\<close>, or a loop that makes no progress); theorem
  \<open>ArrayMessage_feed_total\<close> shows that this does not happen.
\<close>

partial_function (option) ArrayMessage_feed_loop ::
  "endian \<Rightarrow> ArrayMessage \<Rightarrow> pointer \<Rightarrow> byte list \<Rightarrow> nat \<Rightarrow> (nat \<times> ArrayMessage) option" where
  "ArrayMessage_feed_loop h m data bytes consumed' =
     (if consumed' < length bytes \<and> \<not> ArrayMessage_done m then
        (case ArrayMessage_feed_body h m data bytes consumed' of
           None \<Rightarrow> None
         | Some (m1, consumed1) \<Rightarrow> ArrayMessage_feed_loop h m1 data bytes consumed1)
      else Some (consumed', m))"

declare ArrayMessage_feed_loop.simps [code]

text \<open>\<^verbatim>\<open>feed(data, size)\<close>: the number of bytes consumed and the reader afterwards.\<close>

definition ArrayMessage_feed ::
  "endian \<Rightarrow> ArrayMessage \<Rightarrow> pointer \<Rightarrow> byte list \<Rightarrow> (nat \<times> ArrayMessage) option" where
  "ArrayMessage_feed h m data bytes = ArrayMessage_feed_loop h m data bytes 0"

subsection \<open>\<^verbatim>\<open>ScalarMessage\<close>\<close>

text \<open>
  As for \<^verbatim>\<open>ArrayMessage\<close>, the uninitialised members are arguments of the constructor.
  \<^verbatim>\<open>result\<close> is default-constructed: the empty static string.
\<close>

record ScalarMessage =
  state :: State
  error :: "8 word"
  maxSize :: "32 word"
  headerReader :: Uint32Message
  buffer :: "byte list"
  result :: StaticString

definition ScalarMessage_init :: "32 word \<Rightarrow> 32 word \<Rightarrow> 8 word \<Rightarrow> ScalarMessage" where
  "ScalarMessage_init maxSize0 v0 e0 =
     \<lparr>state = READING_HEADER, error = e0, maxSize = maxSize0,
      headerReader = Uint32Message_init v0, buffer = [],
      result = \<lparr>content = (StaticEmpty, 0), len = 0\<rparr>\<rparr>"

definition ScalarMessage_setMaxSize :: "ScalarMessage \<Rightarrow> 32 word \<Rightarrow> ScalarMessage" where
  "ScalarMessage_setMaxSize m maxSize0 = m\<lparr>maxSize := maxSize0\<rparr>"

text \<open>
  \<^verbatim>\<open>reset(zeroBuffer)\<close>: the \<^verbatim>\<open>MemZeroGuard\<close> overwrites the bytes of the buffer with
  zeroes before the buffer is cleared.
\<close>

definition ScalarMessage_reset :: "ScalarMessage \<Rightarrow> bool \<Rightarrow> ScalarMessage" where
  "ScalarMessage_reset m zeroBuffer =
     (let m1 = m\<lparr>state := READING_HEADER\<rparr>;
          m2 = (if zeroBuffer then m1\<lparr>buffer := replicate (length (buffer m1)) 0\<rparr> else m1)
      in m2\<lparr>headerReader := Uint32Message_reset (headerReader m2), buffer := []\<rparr>)"

definition ScalarMessage_done :: "ScalarMessage \<Rightarrow> bool" where
  "ScalarMessage_done m \<longleftrightarrow> state m = DONE \<or> state m = ERROR"

definition ScalarMessage_hasError :: "ScalarMessage \<Rightarrow> bool" where
  "ScalarMessage_hasError m \<longleftrightarrow> state m = ERROR"

definition ScalarMessage_errorCode :: "ScalarMessage \<Rightarrow> 8 word" where
  "ScalarMessage_errorCode m = error m"

definition ScalarMessage_value :: "ScalarMessage \<Rightarrow> StaticString" where
  "ScalarMessage_value m = result m"

definition ScalarMessage_feed_body ::
  "endian \<Rightarrow> ScalarMessage \<Rightarrow> pointer \<Rightarrow> byte list \<Rightarrow> nat \<Rightarrow> (ScalarMessage \<times> nat) option" where
  "ScalarMessage_feed_body h m data bytes consumed' =
     (let current = ptr_add data consumed';
          rest = length bytes - consumed'
      in case state m of
        READING_HEADER \<Rightarrow>
          (let (n, hr) = Uint32Message_feed h (headerReader m) (drop consumed' bytes);
               m1 = m\<lparr>headerReader := hr\<rparr>;
               consumed1 = consumed' + n
           in if Uint32Message_done hr then
                if maxSize m1 > 0 \<and> Uint32Message_value hr > maxSize m1 then
                  Some (m1\<lparr>state := ERROR, error := TOO_LARGE\<rparr>, consumed1)
                else if Uint32Message_value hr = 0 then
                  Some (m1\<lparr>state := DONE\<rparr>, consumed1)
                else
                  Some (m1\<lparr>state := READING_BODY\<rparr>, consumed1)
              else Some (m1, consumed1))
      | READING_BODY \<Rightarrow>
          (let target = unat (Uint32Message_value (headerReader m))
           in if buffer m = [] \<and> rest \<ge> target then
                Some (m\<lparr>result := \<lparr>content = current, len = target\<rparr>, state := DONE\<rparr>,
                      consumed' + target)
              else
                (let toConsume = min rest (target - length (buffer m));
                     m1 = m\<lparr>buffer := buffer m @ take toConsume (drop consumed' bytes)\<rparr>;
                     consumed1 = consumed' + toConsume
                 in if length (buffer m1) = target then
                      Some (m1\<lparr>result := \<lparr>content = (OwnBuffer, 0), len = length (buffer m1)\<rparr>,
                                state := DONE\<rparr>, consumed1)
                    else Some (m1, consumed1)))
      | _ \<Rightarrow> None)"

partial_function (option) ScalarMessage_feed_loop ::
  "endian \<Rightarrow> ScalarMessage \<Rightarrow> pointer \<Rightarrow> byte list \<Rightarrow> nat \<Rightarrow> (nat \<times> ScalarMessage) option" where
  "ScalarMessage_feed_loop h m data bytes consumed' =
     (if consumed' < length bytes \<and> \<not> ScalarMessage_done m then
        (case ScalarMessage_feed_body h m data bytes consumed' of
           None \<Rightarrow> None
         | Some (m1, consumed1) \<Rightarrow> ScalarMessage_feed_loop h m1 data bytes consumed1)
      else Some (consumed', m))"

declare ScalarMessage_feed_loop.simps [code]

definition ScalarMessage_feed ::
  "endian \<Rightarrow> ScalarMessage \<Rightarrow> pointer \<Rightarrow> byte list \<Rightarrow> (nat \<times> ScalarMessage) option" where
  "ScalarMessage_feed h m data bytes = ScalarMessage_feed_loop h m data bytes 0"

section \<open>Message generators\<close>

text \<open>
  The generators fill an array of \<^verbatim>\<open>StaticString\<close> views of the caller's memory; they
  read only the sizes of the views they are given. A view is modelled here by the bytes
  it denotes, and the result is the list of views written to the output array, in
  order. \<^verbatim>\<open>throw ArgumentException(msg)\<close> is \<open>Inl (ArgumentException msg)\<close>.
\<close>

datatype exception = ArgumentException string

text \<open>\<^verbatim>\<open>unsigned int\<close> arithmetic wraps modulo \<open>2 ^ 32\<close>.\<close>

definition ArrayMessage_outputSize :: "nat \<Rightarrow> nat" where
  "ArrayMessage_outputSize argsCount = (argsCount * 2 + 1) mod 2 ^ 32"

text \<open>The first loop of \<^verbatim>\<open>ArrayMessage::generate\<close>: \<^verbatim>\<open>size += args[i].size() + 1\<close>.\<close>

fun ArrayMessage_generate_size :: "byte list list \<Rightarrow> nat \<Rightarrow> nat" where
  "ArrayMessage_generate_size [] size0 = size0"
| "ArrayMessage_generate_size (a # args) size0 =
     ArrayMessage_generate_size args ((size0 + (length a + 1)) mod 2 ^ 32)"

definition ArrayMessage_generate ::
  "endian \<Rightarrow> byte list list \<Rightarrow> nat \<Rightarrow> exception + byte list list" where
  "ArrayMessage_generate h args outCount =
     (if outCount < ArrayMessage_outputSize (length args) then
        Inl (ArgumentException ''outCount too small.'')
      else
        (let size0 = ArrayMessage_generate_size args 0
         in if size0 > 0xFFFF then
              Inl (ArgumentException ''Data size exceeds maximum size for array messages.'')
            else
              Inr (Uint16Message_generate h (of_nat size0) # concat (map (\<lambda>a. [a, [0]]) args))))"

text \<open>\<^verbatim>\<open>ScalarMessage::generate(data, headerBuf, output)\<close>, one payload.\<close>

definition ScalarMessage_generate :: "endian \<Rightarrow> byte list \<Rightarrow> exception + byte list list" where
  "ScalarMessage_generate h data =
     (if length data > 0xFFFFFFFF then
        Inl (ArgumentException ''Data size exceeds maximum size for scalar messages.'')
      else Inr [Uint32Message_generate h (of_nat (length data)), data])"

text \<open>
  \<^verbatim>\<open>ScalarMessage::generate(data, count, headerBuf, output)\<close>, \<open>count\<close> fragments. The
  loop checks each fragment, adds its size to the \<^verbatim>\<open>uint32_t totalSize\<close> and stores the
  fragment in \<^verbatim>\<open>output[i + 1]\<close>; the header goes to \<^verbatim>\<open>output[0]\<close> afterwards.
\<close>

fun ScalarMessage_generate_loop ::
  "byte list list \<Rightarrow> 32 word \<Rightarrow> byte list list \<Rightarrow> exception + (32 word \<times> byte list list)" where
  "ScalarMessage_generate_loop [] totalSize output = Inr (totalSize, output)"
| "ScalarMessage_generate_loop (d # ds) totalSize output =
     (if length d > 0xFFFFFFFF then
        Inl (ArgumentException ''Data size exceeds maximum size for scalar messages.'')
      else ScalarMessage_generate_loop ds (totalSize + of_nat (length d)) (output @ [d]))"

definition ScalarMessage_generate_multi ::
  "endian \<Rightarrow> byte list list \<Rightarrow> exception + byte list list" where
  "ScalarMessage_generate_multi h data =
     (case ScalarMessage_generate_loop data 0 [] of
        Inl e \<Rightarrow> Inl e
      | Inr (totalSize, output) \<Rightarrow> Inr (Uint32Message_generate h totalSize # output))"

section \<open>Reachable states\<close>

text \<open>
  The states a reader can reach are described by the bytes \<open>p\<close> of the current message
  it has consumed so far. For an integer reader: \<open>consumed\<close> is their number, and they
  are in the storage of \<open>val\<close> until the last one arrives, when \<open>val\<close> becomes the
  number they denote.
\<close>

definition hdr16_inv :: "endian \<Rightarrow> Uint16Message \<Rightarrow> byte list \<Rightarrow> bool" where
  "hdr16_inv h hr p \<longleftrightarrow>
     Uint16Message.consumed hr = length p \<and> length p \<le> 2 \<and>
     (if length p = 2 then Uint16Message.val hr = word_of_be p
      else take (length p) (object_bytes h 2 (Uint16Message.val hr)) = p)"

definition hdr32_inv :: "endian \<Rightarrow> Uint32Message \<Rightarrow> byte list \<Rightarrow> bool" where
  "hdr32_inv h hr p \<longleftrightarrow>
     Uint32Message.consumed hr = length p \<and> length p \<le> 4 \<and>
     (if length p = 4 then Uint32Message.val hr = word_of_be p
      else take (length p) (object_bytes h 4 (Uint32Message.val hr)) = p)"

text \<open>
  \<open>mem_holds mem data bytes\<close>: in the memory \<open>mem\<close>, the caller's pointer \<open>data\<close>
  points to the bytes \<open>bytes\<close>, outside the reader's own buffer.
\<close>

definition mem_holds :: "(block \<Rightarrow> byte list) \<Rightarrow> pointer \<Rightarrow> byte list \<Rightarrow> bool" where
  "mem_holds mem data bytes \<longleftrightarrow>
     fst data \<noteq> OwnBuffer \<and> take (length bytes) (drop (snd data) (mem (fst data))) = bytes"

text \<open>
  For a scalar reader with ceiling \<open>mx\<close>, \<open>scalar_len mx s\<close> is the number of bytes
  of the stream \<open>s\<close> that belong to its first message: all of them while the message
  is incomplete, the header alone when the header exceeds the ceiling, header and body
  otherwise. \<open>scalar_inv h mem m p\<close> says that the reader \<open>m\<close> is in the state reached
  by consuming the bytes \<open>p\<close> of one message.
\<close>

definition scalar_len :: "32 word \<Rightarrow> byte list \<Rightarrow> nat" where
  "scalar_len mx s =
     (if length s < 4 then length s
      else let v = word_of_be (take 4 s) :: 32 word
           in if 0 < mx \<and> mx < v then 4 else min (length s) (4 + unat v))"

definition scalar_inv :: "endian \<Rightarrow> (block \<Rightarrow> byte list) \<Rightarrow> ScalarMessage \<Rightarrow> byte list \<Rightarrow> bool" where
  "scalar_inv h mem m p \<longleftrightarrow>
     hdr32_inv h (ScalarMessage.headerReader m) (take 4 p) \<and>
     scalar_len (ScalarMessage.maxSize m) p = length p \<and>
     (if length p < 4 then
        ScalarMessage.state m = READING_HEADER \<and> ScalarMessage.buffer m = [] \<and>
        len (ScalarMessage.result m) = 0
      else let v = word_of_be (take 4 p) :: 32 word in
        if 0 < ScalarMessage.maxSize m \<and> ScalarMessage.maxSize m < v then
          ScalarMessage.state m = ERROR \<and> ScalarMessage.error m = TOO_LARGE \<and>
          ScalarMessage.buffer m = [] \<and> len (ScalarMessage.result m) = 0
        else if length p < 4 + unat v then
          ScalarMessage.state m = READING_BODY \<and> ScalarMessage.buffer m = drop 4 p \<and>
          len (ScalarMessage.result m) = 0
        else
          ScalarMessage.state m = DONE \<and>
          StaticString_bytes (mem(OwnBuffer := ScalarMessage.buffer m)) (ScalarMessage.result m)
            = drop 4 p)"

text \<open>
  The fields of an array body: the byte runs that end in a NUL, in order.
\<close>

function nul_fields :: "byte list \<Rightarrow> byte list list" where
  "nul_fields bs =
     (case memchr bs 0 of
        None \<Rightarrow> []
      | Some n \<Rightarrow> take n bs # nul_fields (drop (n + 1) bs))"
  by pat_completeness auto

termination
proof (relation "measure length")
  have found: "memchr xs c = Some n \<Longrightarrow> n < length xs" for xs c n
    by (induction xs arbitrary: n) (auto split: if_splits)
  fix bs :: "byte list" and n :: nat
  assume "memchr bs 0 = Some n"
  from found [OF this] show "(drop (n + 1) bs, bs) \<in> measure length"
    by simp
qed simp

declare nul_fields.simps [simp del]

text \<open>The same description of the reachable states for an array reader.\<close>

definition array_len :: "16 word \<Rightarrow> byte list \<Rightarrow> nat" where
  "array_len mx s =
     (if length s < 2 then length s
      else let v = word_of_be (take 2 s) :: 16 word
           in if 0 < mx \<and> mx < v then 2 else min (length s) (2 + unat v))"

definition array_inv :: "endian \<Rightarrow> (block \<Rightarrow> byte list) \<Rightarrow> ArrayMessage \<Rightarrow> byte list \<Rightarrow> bool" where
  "array_inv h mem m p \<longleftrightarrow>
     hdr16_inv h (ArrayMessage.headerReader m) (take 2 p) \<and>
     array_len (ArrayMessage.maxSize m) p = length p \<and>
     (if length p < 2 then
        ArrayMessage.state m = READING_HEADER \<and> ArrayMessage.buffer m = [] \<and>
        ArrayMessage.result m = []
      else let v = word_of_be (take 2 p) :: 16 word in
        if 0 < ArrayMessage.maxSize m \<and> ArrayMessage.maxSize m < v then
          ArrayMessage.state m = ERROR \<and> ArrayMessage.error m = TOO_LARGE \<and>
          ArrayMessage.buffer m = [] \<and> ArrayMessage.result m = []
        else if length p < 2 + unat v then
          ArrayMessage.state m = READING_BODY \<and> ArrayMessage.buffer m = drop 2 p \<and>
          ArrayMessage.result m = []
        else
          ArrayMessage.state m = DONE \<and>
          map (StaticString_bytes (mem(OwnBuffer := ArrayMessage.buffer m))) (ArrayMessage.result m)
            = nul_fields (drop 2 p))"

text \<open>
  The invariant of a reader between calls, whatever the caller does with \<^verbatim>\<open>feed\<close>,
  \<^verbatim>\<open>reset\<close>, \<^verbatim>\<open>setMaxSize\<close> and \<^verbatim>\<open>reserve\<close>: while the header is being read it is
  incomplete and nothing is buffered; while the body is being read the header is
  complete and the buffer is shorter than the header value. It is what makes the
  unsigned subtractions of \<^verbatim>\<open>feed\<close> exact.
\<close>

definition ArrayMessage_wf :: "ArrayMessage \<Rightarrow> bool" where
  "ArrayMessage_wf m \<longleftrightarrow>
     (ArrayMessage.state m = READING_HEADER \<longrightarrow>
        Uint16Message.consumed (ArrayMessage.headerReader m) < 2 \<and> ArrayMessage.buffer m = []) \<and>
     (ArrayMessage.state m = READING_BODY \<longrightarrow>
        Uint16Message.consumed (ArrayMessage.headerReader m) = 2 \<and>
        length (ArrayMessage.buffer m)
          < unat (Uint16Message_value (ArrayMessage.headerReader m)))"

definition ScalarMessage_wf :: "ScalarMessage \<Rightarrow> bool" where
  "ScalarMessage_wf m \<longleftrightarrow>
     (ScalarMessage.state m = READING_HEADER \<longrightarrow>
        Uint32Message.consumed (ScalarMessage.headerReader m) < 4 \<and> ScalarMessage.buffer m = []) \<and>
     (ScalarMessage.state m = READING_BODY \<longrightarrow>
        Uint32Message.consumed (ScalarMessage.headerReader m) = 4 \<and>
        length (ScalarMessage.buffer m)
          < unat (Uint32Message_value (ScalarMessage.headerReader m)))"

section \<open>Feeding a stream in chunks\<close>

text \<open>
  A caller that receives a stream in chunks calls \<^verbatim>\<open>feed\<close> once on each chunk, in
  order, the \<open>k\<close>-th chunk living in the caller's \<open>k\<close>-th buffer, and adds up the
  numbers of bytes consumed. \<open>chunk_memory chunks buf\<close> is the memory in which the
  views of the reader are read afterwards: the caller's buffers hold the chunks and
  the reader's buffer holds \<open>buf\<close>.
\<close>

definition chunk_memory :: "byte list list \<Rightarrow> byte list \<Rightarrow> block \<Rightarrow> byte list" where
  "chunk_memory chunks buf b =
     (case b of
        CallerData k \<Rightarrow> (if k < length chunks then chunks ! k else [])
      | OwnBuffer \<Rightarrow> buf
      | StaticEmpty \<Rightarrow> [])"

fun ScalarMessage_feed_chunks ::
  "endian \<Rightarrow> ScalarMessage \<Rightarrow> nat \<Rightarrow> byte list list \<Rightarrow> (nat \<times> ScalarMessage) option" where
  "ScalarMessage_feed_chunks h m k [] = Some (0, m)"
| "ScalarMessage_feed_chunks h m k (c # cs) =
     (case ScalarMessage_feed h m (CallerData k, 0) c of
        None \<Rightarrow> None
      | Some (n, m1) \<Rightarrow>
          (case ScalarMessage_feed_chunks h m1 (Suc k) cs of
             None \<Rightarrow> None
           | Some (t, m2) \<Rightarrow> Some (n + t, m2)))"

definition ScalarMessage_value_bytes :: "byte list list \<Rightarrow> ScalarMessage \<Rightarrow> byte list" where
  "ScalarMessage_value_bytes chunks m =
     StaticString_bytes (chunk_memory chunks (ScalarMessage.buffer m)) (ScalarMessage_value m)"

fun ArrayMessage_feed_chunks ::
  "endian \<Rightarrow> ArrayMessage \<Rightarrow> nat \<Rightarrow> byte list list \<Rightarrow> (nat \<times> ArrayMessage) option" where
  "ArrayMessage_feed_chunks h m k [] = Some (0, m)"
| "ArrayMessage_feed_chunks h m k (c # cs) =
     (case ArrayMessage_feed h m (CallerData k, 0) c of
        None \<Rightarrow> None
      | Some (n, m1) \<Rightarrow>
          (case ArrayMessage_feed_chunks h m1 (Suc k) cs of
             None \<Rightarrow> None
           | Some (t, m2) \<Rightarrow> Some (n + t, m2)))"

definition ArrayMessage_value_bytes :: "byte list list \<Rightarrow> ArrayMessage \<Rightarrow> byte list list" where
  "ArrayMessage_value_bytes chunks m =
     map (StaticString_bytes (chunk_memory chunks (ArrayMessage.buffer m))) (ArrayMessage_value m)"

section \<open>The libeio dispatcher (\<^verbatim>\<open>MultiLibeio.cpp\<close>)\<close>

subsection \<open>The shared state of the dispatcher\<close>

text \<open>
  The file-level variables \<^verbatim>\<open>shouldPoll\<close>, \<^verbatim>\<open>thr\<close> and \<^verbatim>\<open>quit\<close>. The mutex and the
  condition variable carry no data. A thread handle is the name and the stack size the
  thread was created with.
\<close>

record thread =
  name :: string
  stack_size :: nat

record dispatcher =
  shouldPoll :: bool
  thr :: "thread option"
  quit :: bool

text \<open>The initialisers of the three variables.\<close>

definition dispatcher_initial :: dispatcher where
  "dispatcher_initial = \<lparr>shouldPoll = False, thr = None, quit = False\<rparr>"

text \<open>
  \<^verbatim>\<open>wantPoll\<close>, the hook given to \<^verbatim>\<open>eio_init\<close>: the engine calls it when it has
  results to drain.
\<close>

definition wantPoll :: "dispatcher \<Rightarrow> dispatcher" where
  "wantPoll d = d\<lparr>shouldPoll := True\<rparr>"

text \<open>
  \<^verbatim>\<open>threadMain\<close> reads \<^verbatim>\<open>quit\<close> and \<^verbatim>\<open>shouldPoll\<close> and writes neither. What the loop
  does next, as a function of the two flags: it leaves the outer loop, it waits on the
  condition variable, or it calls \<^verbatim>\<open>eio_poll()\<close>.
\<close>

datatype thread_action = Exit | Wait | Poll

definition threadMain_next :: "dispatcher \<Rightarrow> thread_action" where
  "threadMain_next d = (if quit d then Exit else if \<not> shouldPoll d then Wait else Poll)"

definition MultiLibeio_init :: "dispatcher \<Rightarrow> dispatcher" where
  "MultiLibeio_init d = d\<lparr>thr := Some \<lparr>name = ''MultiLibeio dispatcher'', stack_size = 1024 * 64\<rparr>\<rparr>"

text \<open>
  \<^verbatim>\<open>shutdown\<close>: sets \<^verbatim>\<open>quit\<close>, wakes and joins the thread (which leaves its loop, as
  \<^verbatim>\<open>quit\<close> is set), deletes the handle, and clears \<^verbatim>\<open>thr\<close> and \<^verbatim>\<open>quit\<close>.
\<close>

definition MultiLibeio_shutdown :: "dispatcher \<Rightarrow> dispatcher" where
  "MultiLibeio_shutdown d =
     (let d1 = d\<lparr>quit := True\<rparr>;
          d2 = d1\<lparr>thr := None\<rparr>
      in d2\<lparr>quit := False\<rparr>)"

text \<open>
  What can happen to the shared state, in any order the threads produce: the calls of
  the interface, the engine calling the hook, and passes of the dispatch thread's loop.
\<close>

datatype dispatcher_event = Init | Shutdown | WantPoll | ThreadPass

fun dispatcher_step :: "dispatcher_event \<Rightarrow> dispatcher \<Rightarrow> dispatcher" where
  "dispatcher_step Init d = MultiLibeio_init d"
| "dispatcher_step Shutdown d = MultiLibeio_shutdown d"
| "dispatcher_step WantPoll d = wantPoll d"
| "dispatcher_step ThreadPass d = d"

definition dispatcher_run :: "dispatcher_event list \<Rightarrow> dispatcher \<Rightarrow> dispatcher" where
  "dispatcher_run es d = fold dispatcher_step es d"

subsection \<open>Submitting requests\<close>

text \<open>
  A request context (\<^verbatim>\<open>Data\<close>, \<^verbatim>\<open>CustomData\<close>) lives on the heap from \<^verbatim>\<open>new\<close> to
  \<^verbatim>\<open>delete\<close>. Reactors, callbacks and work functions are opaque: they are identified
  by numbers. \<open>execute\<close> is present in a \<^verbatim>\<open>CustomData\<close> only.
\<close>

record Data =
  libev :: nat
  callback :: nat
  execute :: "nat option"

text \<open>
  The engine is not part of this program. A call of one of its submit functions is
  described by its arguments; every call passes \<^verbatim>\<open>dispatch\<close> as the completion hook
  and the address of the context as \<^verbatim>\<open>data\<close> (the last argument here, and the field
  \<open>req_data\<close> of the request). The engine answers with the request it
  created, or with \<open>None\<close> for \<^verbatim>\<open>NULL\<close> when it does not accept the submission. How it
  answers is a parameter \<open>eio\<close> of the submitting functions.
\<close>

datatype eio_call =
    Eio_open string int nat int nat
  | Eio_read int nat nat int int nat
  | Eio_write int nat nat int int nat
  | Eio_custom int nat

record eio_req =
  submitted_as :: eio_call
  req_data :: nat

text \<open>
  The part of the world the submitting functions and \<^verbatim>\<open>dispatch\<close> act on: the live
  contexts by address, the next address \<^verbatim>\<open>new\<close> returns, and the callbacks handed to a
  reactor with \<^verbatim>\<open>runAsync\<close> (reactor, callback, and the copy of the request the
  callback is bound to).
\<close>

record world =
  heap :: "nat \<rightharpoonup> Data"
  next_addr :: nat
  scheduled :: "(nat \<times> nat \<times> eio_req) list"

definition new_Data :: "world \<Rightarrow> Data \<Rightarrow> nat \<times> world" where
  "new_Data w d = (next_addr w, w\<lparr>heap := (heap w)(next_addr w \<mapsto> d), next_addr := next_addr w + 1\<rparr>)"

definition delete_Data :: "world \<Rightarrow> nat \<Rightarrow> world" where
  "delete_Data w a = w\<lparr>heap := (heap w)(a := None)\<rparr>"

text \<open>
  The macro \<^verbatim>\<open>MAKE_REQUEST(code)\<close>, with \<open>code\<close> the engine call as a function of the
  address of the new context.
\<close>

definition MAKE_REQUEST ::
  "(eio_call \<Rightarrow> eio_req option) \<Rightarrow> world \<Rightarrow> nat \<Rightarrow> nat \<Rightarrow> (nat \<Rightarrow> eio_call)
     \<Rightarrow> eio_req option \<times> world" where
  "MAKE_REQUEST eio w libev0 callback0 code =
     (let (data0, w1) = new_Data w \<lparr>libev = libev0, callback = callback0, execute = None\<rparr>;
          result = eio (code data0)
      in if result = None then (None, delete_Data w1 data0) else (result, w1))"

definition MultiLibeio_open ::
  "(eio_call \<Rightarrow> eio_req option) \<Rightarrow> world \<Rightarrow> nat \<Rightarrow> string \<Rightarrow> int \<Rightarrow> nat \<Rightarrow> int \<Rightarrow> nat
     \<Rightarrow> eio_req option \<times> world" where
  "MultiLibeio_open eio w libev0 path flags mode pri callback0 =
     MAKE_REQUEST eio w libev0 callback0 (Eio_open path flags mode pri)"

definition MultiLibeio_custom ::
  "(eio_call \<Rightarrow> eio_req option) \<Rightarrow> world \<Rightarrow> nat \<Rightarrow> nat \<Rightarrow> int \<Rightarrow> nat
     \<Rightarrow> eio_req option \<times> world" where
  "MultiLibeio_custom eio w libev0 execute0 pri callback0 =
     (let (data0, w1) = new_Data w \<lparr>libev = libev0, callback = callback0, execute = Some execute0\<rparr>;
          result = eio (Eio_custom pri data0)
      in if result = None then (None, delete_Data w1 data0) else (result, w1))"

text \<open>
  \<^verbatim>\<open>read\<close> and \<^verbatim>\<open>write\<close>: where \<^verbatim>\<open>PREAD_AND_PWRITE_ARE_NOT_THREADSAFE\<close> is set they go
  through \<^verbatim>\<open>custom\<close> with a work function that takes the process-wide lock (the
  identities \<open>lockedPread\<close>, \<open>lockedPwrite\<close> of these work functions are arguments).
\<close>

definition MultiLibeio_read ::
  "bool \<Rightarrow> nat \<Rightarrow> (eio_call \<Rightarrow> eio_req option) \<Rightarrow> world \<Rightarrow> nat \<Rightarrow> int \<Rightarrow> nat \<Rightarrow> nat \<Rightarrow> int
     \<Rightarrow> int \<Rightarrow> nat \<Rightarrow> eio_req option \<times> world" where
  "MultiLibeio_read not_threadsafe lockedPread eio w libev0 fd buf length0 offset pri callback0 =
     (if not_threadsafe then MultiLibeio_custom eio w libev0 lockedPread pri callback0
      else MAKE_REQUEST eio w libev0 callback0 (Eio_read fd buf length0 offset pri))"

definition MultiLibeio_write ::
  "bool \<Rightarrow> nat \<Rightarrow> (eio_call \<Rightarrow> eio_req option) \<Rightarrow> world \<Rightarrow> nat \<Rightarrow> int \<Rightarrow> nat \<Rightarrow> nat \<Rightarrow> int
     \<Rightarrow> int \<Rightarrow> nat \<Rightarrow> eio_req option \<times> world" where
  "MultiLibeio_write not_threadsafe lockedPwrite eio w libev0 fd buf length0 offset pri callback0 =
     (if not_threadsafe then MultiLibeio_custom eio w libev0 lockedPwrite pri callback0
      else MAKE_REQUEST eio w libev0 callback0 (Eio_write fd buf length0 offset pri))"

text \<open>
  \<^verbatim>\<open>dispatch(req)\<close>, the completion hook: it takes the context over (so the context is
  deleted when it returns), hands the callback, bound to a copy of the request, to
  the reactor of the context, and returns 0. \<open>None\<close>: the request carries the address
  of no live context, and the behaviour is undefined.
\<close>

definition dispatch :: "world \<Rightarrow> eio_req \<Rightarrow> (int \<times> world) option" where
  "dispatch w req =
     (case heap w (req_data req) of
        None \<Rightarrow> None
      | Some d \<Rightarrow>
          Some (0, delete_Data (w\<lparr>scheduled := scheduled w @ [(libev d, callback d, req)]\<rparr>)
                     (req_data req)))"

text \<open>Addresses not yet handed out by \<^verbatim>\<open>new\<close> are not live.\<close>

definition world_wf :: "world \<Rightarrow> bool" where
  "world_wf w \<longleftrightarrow> (\<forall>a \<in> dom (heap w). a < next_addr w)"

section \<open>Properties of the integer readers\<close>

lemma byte_bit_high: "8 \<le> n \<Longrightarrow> \<not> bit (b :: byte) n"
  by (auto dest: bit_imp_le_length)

lemma length_be_bytes [simp]: "length (be_bytes n v) = n"
  by (induction n) simp_all

lemma length_object_bytes [simp]: "length (object_bytes h n v) = n"
  by (simp add: object_bytes_def split: endian.splits)

lemma be_bytes_2: "be_bytes 2 v = [ucast (drop_bit 8 v), ucast v]"
  by (simp add: numeral_2_eq_2)

lemma be_bytes_4:
  "be_bytes 4 v = [ucast (drop_bit 24 v), ucast (drop_bit 16 v), ucast (drop_bit 8 v), ucast v]"
  by (simp add: eval_nat_numeral)

lemma word_of_be_2: "word_of_be [a, b] = push_bit 8 (ucast a) OR ucast b"
  by (simp add: word_of_be_def)

lemma word_of_be_4:
  "word_of_be [a, b, c, d] =
     push_bit 24 (ucast a) OR push_bit 16 (ucast b) OR push_bit 8 (ucast c) OR ucast d"
  unfolding word_of_be_def foldl.simps
  by (rule bit_word_eqI) (auto simp add: bit_simps)

lemma word_of_be_bytes_16: "word_of_be (be_bytes 2 v) = (v :: 16 word)"
  unfolding be_bytes_2 word_of_be_2
  apply (rule bit_word_eqI)
  subgoal for n
    by (cases "n < 8") (auto simp add: bit_simps)
  done

lemma word_of_be_bytes_32: "word_of_be (be_bytes 4 v) = (v :: 32 word)"
  unfolding be_bytes_4 word_of_be_4
  apply (rule bit_word_eqI)
  subgoal for n
    by (cases "n < 8"; cases "n < 16"; cases "n < 24") (auto simp add: bit_simps)
  done

lemma length_2E: "length xs = 2 \<Longrightarrow> (\<And>a b. xs = [a, b] \<Longrightarrow> P) \<Longrightarrow> P"
  by (cases xs; simp; rename_tac ys; case_tac ys; simp)

lemma length_2_conv: "length xs = 2 \<longleftrightarrow> (\<exists>a b. xs = [a, b])"
  by (auto simp: length_Suc_conv numeral_2_eq_2)

lemma length_4_conv: "length xs = 4 \<longleftrightarrow> (\<exists>a b c d. xs = [a, b, c, d])"
  by (auto simp: length_Suc_conv eval_nat_numeral)

lemma be_bytes_word_of_be_16:
  "length bs = 2 \<Longrightarrow> be_bytes 2 (word_of_be bs :: 16 word) = bs"
  unfolding length_2_conv
  apply (elim exE)
  apply (simp only: be_bytes_2 word_of_be_2 list.inject)
  apply (intro conjI refl)
   apply (rule bit_word_eqI; simp add: bit_simps byte_bit_high)+
  done

lemma be_bytes_word_of_be_32:
  "length bs = 4 \<Longrightarrow> be_bytes 4 (word_of_be bs :: 32 word) = bs"
  unfolding length_4_conv
  apply (elim exE)
  apply (simp only: be_bytes_4 word_of_be_4 list.inject)
  apply (intro conjI refl)
   apply (rule bit_word_eqI; simp add: bit_simps byte_bit_high)+
  done

lemma object_value_bytes_16 [simp]: "object_value h (object_bytes h 2 v) = (v :: 16 word)"
  by (simp add: object_value_def object_bytes_def word_of_be_bytes_16 split: endian.splits)

lemma object_value_bytes_32 [simp]: "object_value h (object_bytes h 4 v) = (v :: 32 word)"
  by (simp add: object_value_def object_bytes_def word_of_be_bytes_32 split: endian.splits)

lemma object_bytes_value_16 [simp]:
  "length bs = 2 \<Longrightarrow> object_bytes h 2 (object_value h bs :: 16 word) = bs"
  by (simp add: object_value_def object_bytes_def be_bytes_word_of_be_16 split: endian.splits)

lemma object_bytes_value_32 [simp]:
  "length bs = 4 \<Longrightarrow> object_bytes h 4 (object_value h bs :: 32 word) = bs"
  by (simp add: object_value_def object_bytes_def be_bytes_word_of_be_32 split: endian.splits)

lemma ntohs_object_value: "length bs = 2 \<Longrightarrow> ntohs h (object_value h bs) = word_of_be bs"
  by (simp add: ntohs_def)

lemma ntohl_object_value: "length bs = 4 \<Longrightarrow> ntohl h (object_value h bs) = word_of_be bs"
  by (simp add: ntohl_def)

lemma Uint16Message_generate_eq: "Uint16Message_generate h v = be_bytes 2 v"
  by (simp add: Uint16Message_generate_def htons_def)

lemma Uint32Message_generate_eq: "Uint32Message_generate h v = be_bytes 4 v"
  by (simp add: Uint32Message_generate_def htonl_def)

lemma memcpy_nil [simp]: "memcpy dst off [] = dst"
  by (simp add: memcpy_def)

lemma length_memcpy: "off + length src \<le> length dst \<Longrightarrow> length (memcpy dst off src) = length dst"
  by (simp add: memcpy_def)

lemma Uint16Message_feed_eq:
  "Uint16Message_feed h m d =
     (let n = min (length d) (2 - Uint16Message.consumed m);
          v1 = object_value h (memcpy (object_bytes h 2 (Uint16Message.val m))
                 (Uint16Message.consumed m) (take n d))
      in (n, \<lparr>Uint16Message.val = (if n > 0 \<and> Uint16Message.consumed m + n = 2 then ntohs h v1 else v1),
              Uint16Message.consumed = Uint16Message.consumed m + n\<rparr>))"
  by (simp add: Uint16Message_feed_def Let_def Uint16Message_done_def)

lemma Uint16Message_feed_inv:
  assumes "hdr16_inv h hr p" and "Uint16Message_feed h hr d = (n, hr')"
  shows "n = min (length d) (2 - length p) \<and> hdr16_inv h hr' (p @ take n d)"
proof -
  let ?ob = "object_bytes h 2 (Uint16Message.val hr)"
  from assms(1) have c: "Uint16Message.consumed hr = length p" and le: "length p \<le> 2"
    by (simp_all add: hdr16_inv_def)
  from assms(2) have n: "n = min (length d) (2 - length p)"
    by (simp add: Uint16Message_feed_eq Let_def c)
  define t where "t = take n d"
  have lt: "length t = n" and ln: "length p + n \<le> 2"
    using n le by (auto simp: t_def)
  let ?mem = "memcpy ?ob (length p) t"
  from assms(2) have hr': "hr' = \<lparr>Uint16Message.val = (if n > 0 \<and> length p + n = 2
                    then ntohs h (object_value h ?mem) else object_value h ?mem),
              Uint16Message.consumed = length p + n\<rparr>"
    unfolding Uint16Message_feed_eq Let_def c n [symmetric] t_def by simp
  have "hdr16_inv h hr' (p @ t)"
  proof (cases "n = 0")
    case True
    then have "hr' = hr" "t = []" using hr' c lt by simp_all
    with assms(1) show ?thesis by simp
  next
    case False
    then have "length p < 2" using n by auto
    with assms(1) have p: "take (length p) ?ob = p"
      by (simp add: hdr16_inv_def)
    have mem: "?mem = (p @ t) @ drop (length p + n) ?ob"
      using p lt by (simp add: memcpy_def)
    have lmem: "length ?mem = 2"
      using ln lt by (subst length_memcpy) auto
    show ?thesis
    proof (cases "length p + n = 2")
      case True
      then have "?mem = p @ t" using mem by simp
      with True False lmem lt show ?thesis
        unfolding hr' by (simp add: hdr16_inv_def ntohs_object_value)
    next
      case F2: False
      have "take (length p + n) ?mem = p @ t"
        unfolding mem using lt by simp
      with F2 ln False lmem lt show ?thesis
        unfolding hr' by (simp add: hdr16_inv_def)
    qed
  qed
  with n show ?thesis by (simp add: t_def)
qed

lemma Uint32Message_feed_eq:
  "Uint32Message_feed h m d =
     (let n = min (length d) (4 - Uint32Message.consumed m);
          v1 = object_value h (memcpy (object_bytes h 4 (Uint32Message.val m))
                 (Uint32Message.consumed m) (take n d))
      in (n, \<lparr>Uint32Message.val = (if n > 0 \<and> Uint32Message.consumed m + n = 4 then ntohl h v1 else v1),
              Uint32Message.consumed = Uint32Message.consumed m + n\<rparr>))"
  by (simp add: Uint32Message_feed_def Let_def Uint32Message_done_def)

lemma Uint32Message_feed_inv:
  assumes "hdr32_inv h hr p" and "Uint32Message_feed h hr d = (n, hr')"
  shows "n = min (length d) (4 - length p) \<and> hdr32_inv h hr' (p @ take n d)"
proof -
  let ?ob = "object_bytes h 4 (Uint32Message.val hr)"
  from assms(1) have c: "Uint32Message.consumed hr = length p" and le: "length p \<le> 4"
    by (simp_all add: hdr32_inv_def)
  from assms(2) have n: "n = min (length d) (4 - length p)"
    by (simp add: Uint32Message_feed_eq Let_def c)
  define t where "t = take n d"
  have lt: "length t = n" and ln: "length p + n \<le> 4"
    using n le by (auto simp: t_def)
  let ?mem = "memcpy ?ob (length p) t"
  from assms(2) have hr': "hr' = \<lparr>Uint32Message.val = (if n > 0 \<and> length p + n = 4
                    then ntohl h (object_value h ?mem) else object_value h ?mem),
              Uint32Message.consumed = length p + n\<rparr>"
    unfolding Uint32Message_feed_eq Let_def c n [symmetric] t_def by simp
  have "hdr32_inv h hr' (p @ t)"
  proof (cases "n = 0")
    case True
    then have "hr' = hr" "t = []" using hr' c lt by simp_all
    with assms(1) show ?thesis by simp
  next
    case False
    then have "length p < 4" using n by auto
    with assms(1) have p: "take (length p) ?ob = p"
      by (simp add: hdr32_inv_def)
    have mem: "?mem = (p @ t) @ drop (length p + n) ?ob"
      using p lt by (simp add: memcpy_def)
    have lmem: "length ?mem = 4"
      using ln lt by (subst length_memcpy) auto
    show ?thesis
    proof (cases "length p + n = 4")
      case True
      then have "?mem = p @ t" using mem by simp
      with True False lmem lt show ?thesis
        unfolding hr' by (simp add: hdr32_inv_def ntohl_object_value)
    next
      case F2: False
      have "take (length p + n) ?mem = p @ t"
        unfolding mem using lt by simp
      with F2 ln False lmem lt show ?thesis
        unfolding hr' by (simp add: hdr32_inv_def)
    qed
  qed
  with n show ?thesis by (simp add: t_def)
qed


section \<open>Reachable states of the scalar reader\<close>

lemma scalar_len_le: "scalar_len mx s \<le> length s"
  by (simp add: scalar_len_def Let_def)

lemma scalar_len_mono:
  assumes "scalar_len mx p = length p"
  shows "length p \<le> scalar_len mx (p @ x)"
proof (cases "length p < 4")
  case True
  then show ?thesis by (simp add: scalar_len_def Let_def)
next
  case False
  with assms show ?thesis
    by (auto simp add: scalar_len_def Let_def split: if_splits)
qed

lemma scalar_len_done:
  assumes "scalar_inv h mem m p" and "ScalarMessage_done m"
  shows "scalar_len (ScalarMessage.maxSize m) (p @ x) = length p"
  using assms
  by (auto simp add: scalar_inv_def scalar_len_def ScalarMessage_done_def Let_def split: if_splits)

lemma scalar_inv_not_done:
  assumes "scalar_inv h mem m p" and "\<not> ScalarMessage_done m"
  shows "ScalarMessage.state m = READING_HEADER \<and> length p < 4 \<or>
         ScalarMessage.state m = READING_BODY \<and> 4 \<le> length p"
  using assms
  by (auto simp add: scalar_inv_def ScalarMessage_done_def Let_def split: if_splits)

lemma scalar_inv_headerI:
  assumes "length p < 4" "hdr32_inv h (ScalarMessage.headerReader m) p"
    "ScalarMessage.state m = READING_HEADER" "ScalarMessage.buffer m = []"
    "len (ScalarMessage.result m) = 0"
  shows "scalar_inv h mem m p"
  using assms by (simp add: scalar_inv_def scalar_len_def)

lemma scalar_inv_errorI:
  assumes "length p = 4" "hdr32_inv h (ScalarMessage.headerReader m) p"
    "0 < ScalarMessage.maxSize m" "ScalarMessage.maxSize m < word_of_be p"
    "ScalarMessage.state m = ERROR" "ScalarMessage.error m = TOO_LARGE"
    "ScalarMessage.buffer m = []" "len (ScalarMessage.result m) = 0"
  shows "scalar_inv h mem m p"
  using assms by (simp add: scalar_inv_def scalar_len_def)

lemma scalar_inv_bodyI:
  assumes "4 \<le> length p" "hdr32_inv h (ScalarMessage.headerReader m) (take 4 p)"
    "\<not> (0 < ScalarMessage.maxSize m \<and> ScalarMessage.maxSize m < word_of_be (take 4 p))"
    "length p < 4 + unat (word_of_be (take 4 p) :: 32 word)"
    "ScalarMessage.state m = READING_BODY" "ScalarMessage.buffer m = drop 4 p"
    "len (ScalarMessage.result m) = 0"
  shows "scalar_inv h mem m p"
  using assms by (auto simp add: scalar_inv_def scalar_len_def Let_def)

lemma scalar_inv_doneI:
  assumes "4 \<le> length p" "hdr32_inv h (ScalarMessage.headerReader m) (take 4 p)"
    "\<not> (0 < ScalarMessage.maxSize m \<and> ScalarMessage.maxSize m < word_of_be (take 4 p))"
    "length p = 4 + unat (word_of_be (take 4 p) :: 32 word)"
    "ScalarMessage.state m = DONE"
    "StaticString_bytes (mem(OwnBuffer := ScalarMessage.buffer m)) (ScalarMessage.result m) = drop 4 p"
  shows "scalar_inv h mem m p"
  using assms by (auto simp add: scalar_inv_def scalar_len_def Let_def)

lemma scalar_inv_headerD:
  assumes "scalar_inv h mem m p" "ScalarMessage.state m = READING_HEADER"
  shows "length p < 4" "hdr32_inv h (ScalarMessage.headerReader m) p"
    "ScalarMessage.buffer m = []" "len (ScalarMessage.result m) = 0"
proof -
  from assms show lp: "length p < 4"
    by (auto simp add: scalar_inv_def Let_def split: if_splits)
  with assms show "hdr32_inv h (ScalarMessage.headerReader m) p"
    "ScalarMessage.buffer m = []" "len (ScalarMessage.result m) = 0"
    by (simp_all add: scalar_inv_def)
qed

lemma scalar_inv_bodyD:
  assumes "scalar_inv h mem m p" "ScalarMessage.state m = READING_BODY"
  shows "4 \<le> length p" "hdr32_inv h (ScalarMessage.headerReader m) (take 4 p)"
    "\<not> (0 < ScalarMessage.maxSize m \<and> ScalarMessage.maxSize m < word_of_be (take 4 p))"
    "length p < 4 + unat (word_of_be (take 4 p) :: 32 word)"
    "ScalarMessage.buffer m = drop 4 p" "len (ScalarMessage.result m) = 0"
  using assms by (auto simp add: scalar_inv_def Let_def split: if_splits)

lemma scalar_body_header:
  assumes inv: "scalar_inv h mem m p"
    and st: "ScalarMessage.state m = READING_HEADER"
    and c: "c < length bytes"
  shows "\<exists>m' c'. ScalarMessage_feed_body h m data bytes c = Some (m', c') \<and>
           c < c' \<and> c' \<le> length bytes \<and>
           scalar_inv h mem m' (p @ take (c' - c) (drop c bytes)) \<and>
           ScalarMessage.maxSize m' = ScalarMessage.maxSize m"
proof -
  define d where "d = drop c bytes"
  obtain n hr where feed: "Uint32Message_feed h (ScalarMessage.headerReader m) d = (n, hr)"
    by (cases "Uint32Message_feed h (ScalarMessage.headerReader m) d")
  note D = scalar_inv_headerD [OF inv st]
  from Uint32Message_feed_inv [OF D(2) feed]
  have n: "n = min (length d) (4 - length p)" and hinv': "hdr32_inv h hr (p @ take n d)"
    by blast+
  have ld: "length d = length bytes - c" by (simp add: d_def)
  with n c D(1) have npos: "0 < n" and nle: "c + n \<le> length bytes"
    and lt: "length (take n d) = n"
    by auto
  define p' where "p' = p @ take n d"
  have lp': "length p' = length p + n" and lp4: "length p' \<le> 4"
    using lt n D(1) by (auto simp: p'_def)
  have hinv'': "hdr32_inv h hr p'" using hinv' by (simp add: p'_def)
  have tp': "take 4 p' = p'" using lp4 by simp
  have hc: "Uint32Message.consumed hr = length p'"
    using hinv'' by (simp add: hdr32_inv_def)
  define m1 where "m1 = m\<lparr>ScalarMessage.headerReader := hr\<rparr>"
  have "\<exists>m'. ScalarMessage_feed_body h m data bytes c = Some (m', c + n) \<and>
             scalar_inv h mem m' p' \<and> ScalarMessage.maxSize m' = ScalarMessage.maxSize m"
  proof (cases "length p' = 4")
    case False
    then have nd: "\<not> Uint32Message_done hr"
      by (simp add: Uint32Message_done_def hc)
    have body: "ScalarMessage_feed_body h m data bytes c = Some (m1, c + n)"
      using feed nd st by (simp add: ScalarMessage_feed_body_def Let_def d_def m1_def)
    from False lp4 have "length p' < 4" by simp
    then have "scalar_inv h mem m1 p'"
      by (rule scalar_inv_headerI) (simp_all add: m1_def hinv'' st D)
    with body show ?thesis by (simp add: m1_def)
  next
    case True
    then have dn: "Uint32Message_done hr"
      by (simp add: Uint32Message_done_def hc)
    define v :: "32 word" where "v = word_of_be p'"
    have v: "Uint32Message_value hr = v"
      using hinv'' True by (simp add: hdr32_inv_def Uint32Message_value_def v_def)
    consider (err) "ScalarMessage.maxSize m > 0 \<and> v > ScalarMessage.maxSize m"
      | (zero) "\<not> (ScalarMessage.maxSize m > 0 \<and> v > ScalarMessage.maxSize m)" "v = 0"
      | (body) "\<not> (ScalarMessage.maxSize m > 0 \<and> v > ScalarMessage.maxSize m)" "v \<noteq> 0"
      by blast
    then show ?thesis
    proof cases
      case err
      define m' where "m' = m1\<lparr>ScalarMessage.state := ERROR, ScalarMessage.error := TOO_LARGE\<rparr>"
      have body: "ScalarMessage_feed_body h m data bytes c = Some (m', c + n)"
        using feed dn st v err
        by (simp add: ScalarMessage_feed_body_def Let_def d_def m'_def m1_def)
      have "scalar_inv h mem m' p'"
        using True err
        by (intro scalar_inv_errorI) (simp_all add: m'_def m1_def hinv'' D v_def)
      with body show ?thesis by (simp add: m'_def m1_def)
    next
      case zero
      define m' where "m' = m1\<lparr>ScalarMessage.state := DONE\<rparr>"
      have c0: "(0 < ScalarMessage.maxSize m \<and> ScalarMessage.maxSize m < v) = False"
        using zero by simp
      have body: "ScalarMessage_feed_body h m data bytes c = Some (m', c + n)"
        unfolding ScalarMessage_feed_body_def Let_def
        using feed dn st v zero(2)
        by (simp add: d_def m'_def m1_def)
      have "scalar_inv h mem m' p'"
        using True zero
        by (intro scalar_inv_doneI)
          (simp_all add: m'_def m1_def hinv'' D v_def tp' StaticString_bytes_def)
      with body show ?thesis by (simp add: m'_def m1_def)
    next
      case body
      define m' where "m' = m1\<lparr>ScalarMessage.state := READING_BODY\<rparr>"
      have c0: "(0 < ScalarMessage.maxSize m \<and> ScalarMessage.maxSize m < v) = False"
        using body by simp
      have fb: "ScalarMessage_feed_body h m data bytes c = Some (m', c + n)"
        unfolding ScalarMessage_feed_body_def Let_def
        using feed dn st v body(2)
        by (simp add: d_def c0) (simp add: m'_def m1_def)
      have "0 < unat v" using body(2) by (simp add: unat_gt_0)
      then have "scalar_inv h mem m' p'"
        using True body
        by (intro scalar_inv_bodyI)
          (simp_all add: m'_def m1_def hinv'' D v_def tp')
      with fb show ?thesis by (simp add: m'_def m1_def)
    qed
  qed
  with npos nle show ?thesis
    by (auto simp add: p'_def d_def)
qed

lemma StaticString_bytes_caller:
  assumes "mem_holds mem data bytes" and "c + n \<le> length bytes"
  shows "StaticString_bytes (mem(OwnBuffer := b)) \<lparr>content = ptr_add data c, len = n\<rparr>
         = take n (drop c bytes)"
proof -
  from assms(1) have b: "fst data \<noteq> OwnBuffer"
    and t: "take (length bytes) (drop (snd data) (mem (fst data))) = bytes"
    by (simp_all add: mem_holds_def)
  have "take n (drop (snd data + c) (mem (fst data)))
        = take n (drop c (take (length bytes) (drop (snd data) (mem (fst data)))))"
    using assms(2) by (simp add: drop_take add.commute)
  with t b show ?thesis
    by (simp add: StaticString_bytes_def ptr_add_def)
qed

lemma scalar_body_body:
  assumes inv: "scalar_inv h mem m p"
    and st: "ScalarMessage.state m = READING_BODY"
    and c: "c < length bytes"
    and mem: "mem_holds mem data bytes"
  shows "\<exists>m' c'. ScalarMessage_feed_body h m data bytes c = Some (m', c') \<and>
           c < c' \<and> c' \<le> length bytes \<and>
           scalar_inv h mem m' (p @ take (c' - c) (drop c bytes)) \<and>
           ScalarMessage.maxSize m' = ScalarMessage.maxSize m"
proof -
  define d where "d = drop c bytes"
  define v :: "32 word" where "v = word_of_be (take 4 p)"
  note D = scalar_inv_bodyD [OF inv st, folded v_def]
  from D(1,2) have tv: "Uint32Message_value (ScalarMessage.headerReader m) = v"
    by (simp add: hdr32_inv_def Uint32Message_value_def v_def)
  have ld: "length d = length bytes - c" by (simp add: d_def)
  show ?thesis
  proof (cases "ScalarMessage.buffer m = [] \<and> unat v \<le> length bytes - c")
    case True
    then have lp4: "length p = 4" using D(1,5) by simp
    define m' where "m' = m\<lparr>ScalarMessage.result := \<lparr>content = ptr_add data c, len = unat v\<rparr>,
                              ScalarMessage.state := DONE\<rparr>"
    have body: "ScalarMessage_feed_body h m data bytes c = Some (m', c + unat v)"
      using st True tv by (simp add: ScalarMessage_feed_body_def Let_def m'_def)
    have vpos: "0 < unat v" using D(4) lp4 by simp
    have le: "c + unat v \<le> length bytes" using True c by linarith
    define p' where "p' = p @ take (unat v) d"
    have lp': "length p' = 4 + unat v" and tp': "take 4 p' = take 4 p"
      and dp': "drop 4 p' = take (unat v) d"
      using lp4 le ld by (simp_all add: p'_def)
    have "scalar_inv h mem m' p'"
      using D(3) lp'
      by (intro scalar_inv_doneI)
        (simp_all add: tp' dp' v_def [symmetric] m'_def D(2)
          StaticString_bytes_caller [OF mem le] d_def)
    with body vpos le show ?thesis
      by (auto simp add: d_def m'_def p'_def)
  next
    case False
    define k where "k = min (length bytes - c) (unat v - length (ScalarMessage.buffer m))"
    define m1 where "m1 = m\<lparr>ScalarMessage.buffer := ScalarMessage.buffer m @ take k d\<rparr>"
    have cond: "(ScalarMessage.buffer m = [] \<and>
        unat (Uint32Message_value (ScalarMessage.headerReader m)) \<le> length bytes - c) = False"
      using False tv by simp
    have lb: "length (ScalarMessage.buffer m) = length p - 4" using D(5) by simp
    have kpos: "0 < k" and kle: "c + k \<le> length bytes" and lk: "length (take k d) = k"
      and kv: "length p + k \<le> 4 + unat v"
      using c D(1,4) lb ld by (auto simp add: k_def)
    define p' where "p' = p @ take k d"
    have lp': "length p' = length p + k" and tp': "take 4 p' = take 4 p"
      and dp': "drop 4 p' = drop 4 p @ take k d"
      using lk D(1) by (simp_all add: p'_def)
    have lb1: "length (ScalarMessage.buffer m1) = length p' - 4"
      using lb lk lp' D(1) by (simp add: m1_def)
    have "\<exists>m'. ScalarMessage_feed_body h m data bytes c = Some (m', c + k) \<and>
             scalar_inv h mem m' p' \<and> ScalarMessage.maxSize m' = ScalarMessage.maxSize m"
    proof (cases "length p' = 4 + unat v")
      case True
      define m' where "m' = m1\<lparr>ScalarMessage.result :=
          \<lparr>content = (OwnBuffer, 0), len = length (ScalarMessage.buffer m1)\<rparr>,
          ScalarMessage.state := DONE\<rparr>"
      have full: "length (ScalarMessage.buffer m1) = unat v" using lb1 True by simp
      have body: "ScalarMessage_feed_body h m data bytes c = Some (m', c + k)"
        unfolding ScalarMessage_feed_body_def Let_def
        using full
        by (simp add: st cond) (simp add: tv m'_def m1_def k_def d_def)
      have "scalar_inv h mem m' p'"
        using D(3) True lk
        by (intro scalar_inv_doneI)
          (simp_all add: tp' dp' v_def [symmetric] m'_def m1_def D(2,5) StaticString_bytes_def)
      with body show ?thesis by (simp add: m'_def m1_def)
    next
      case F: False
      then have notfull: "length (ScalarMessage.buffer m1) \<noteq> unat v"
        using lb1 lp' D(1) by simp
      have body: "ScalarMessage_feed_body h m data bytes c = Some (m1, c + k)"
        unfolding ScalarMessage_feed_body_def Let_def
        using notfull
        by (simp add: st cond) (simp add: tv m1_def k_def d_def)
      have "length p' < 4 + unat v" using F kv lp' by simp
      then have "scalar_inv h mem m1 p'"
        using D(3) lp' D(1)
        by (intro scalar_inv_bodyI)
          (simp_all add: tp' dp' v_def [symmetric] m1_def D(2,5,6) st)
      with body show ?thesis by (simp add: m1_def)
    qed
    with kpos kle show ?thesis
      by (auto simp add: d_def p'_def)
  qed
qed

lemma scalar_body_step:
  assumes inv: "scalar_inv h mem m p"
    and nd: "\<not> ScalarMessage_done m"
    and c: "c < length bytes"
    and mem: "mem_holds mem data bytes"
  shows "\<exists>m' c'. ScalarMessage_feed_body h m data bytes c = Some (m', c') \<and>
           c < c' \<and> c' \<le> length bytes \<and>
           scalar_inv h mem m' (p @ take (c' - c) (drop c bytes)) \<and>
           ScalarMessage.maxSize m' = ScalarMessage.maxSize m"
proof (cases "ScalarMessage.state m")
  case READING_HEADER
  from scalar_body_header [OF inv this c] show ?thesis .
next
  case READING_BODY
  from scalar_body_body [OF inv this c mem] show ?thesis .
qed (use nd in \<open>simp_all add: ScalarMessage_done_def\<close>)

lemma scalar_feed_loop_inv:
  assumes "scalar_inv h mem m p" and "c \<le> length bytes" and "mem_holds mem data bytes"
  shows "\<exists>m'. ScalarMessage_feed_loop h m data bytes c =
            Some (c + (scalar_len (ScalarMessage.maxSize m) (p @ drop c bytes) - length p), m') \<and>
          scalar_inv h mem m' (take (scalar_len (ScalarMessage.maxSize m) (p @ drop c bytes))
                                 (p @ drop c bytes)) \<and>
          ScalarMessage.maxSize m' = ScalarMessage.maxSize m"
  using assms
proof (induction "length bytes - c" arbitrary: m p c rule: less_induct)
  case less
  note inv = less.prems(1) and cle = less.prems(2) and mem = less.prems(3)
  let ?mx = "ScalarMessage.maxSize m"
  from inv have self: "scalar_len ?mx p = length p"
    by (simp add: scalar_inv_def)
  show ?case
  proof (cases "c < length bytes \<and> \<not> ScalarMessage_done m")
    case False
    then have loop: "ScalarMessage_feed_loop h m data bytes c = Some (c, m)"
      by (subst ScalarMessage_feed_loop.simps) auto
    have "scalar_len ?mx (p @ drop c bytes) = length p"
    proof (cases "c < length bytes")
      case True
      with False have "ScalarMessage_done m" by simp
      from scalar_len_done [OF inv this] show ?thesis .
    next
      case False
      with cle self show ?thesis by simp
    qed
    with loop inv show ?thesis by simp
  next
    case True
    then have c: "c < length bytes" and nd: "\<not> ScalarMessage_done m" by simp_all
    from scalar_body_step [OF inv nd c mem]
    obtain m1 c1 where body: "ScalarMessage_feed_body h m data bytes c = Some (m1, c1)"
      and lt: "c < c1" and le: "c1 \<le> length bytes"
      and inv1: "scalar_inv h mem m1 (p @ take (c1 - c) (drop c bytes))"
      and mx1: "ScalarMessage.maxSize m1 = ?mx"
      by blast
    define p1 where "p1 = p @ take (c1 - c) (drop c bytes)"
    have s: "p1 @ drop c1 bytes = p @ drop c bytes"
    proof -
      have e: "c1 - c + c = c1" using lt by simp
      have "drop c1 bytes = drop (c1 - c) (drop c bytes)"
        by (simp add: e)
      then show ?thesis
        unfolding p1_def by (simp only: append_assoc append_take_drop_id)
    qed
    have lp1: "length p1 = length p + (c1 - c)"
      using le lt by (simp add: p1_def)
    have loop: "ScalarMessage_feed_loop h m data bytes c = ScalarMessage_feed_loop h m1 data bytes c1"
      by (subst ScalarMessage_feed_loop.simps) (simp add: True body)
    have "length bytes - c1 < length bytes - c" using lt c by simp
    from less.hyps [OF this inv1 [folded p1_def] le mem]
    obtain m' where
      r: "ScalarMessage_feed_loop h m1 data bytes c1 =
            Some (c1 + (scalar_len ?mx (p @ drop c bytes) - length p1), m')"
      and inv': "scalar_inv h mem m' (take (scalar_len ?mx (p @ drop c bytes)) (p @ drop c bytes))"
      and mx': "ScalarMessage.maxSize m' = ?mx"
      unfolding s mx1 by blast
    from inv1 have "scalar_len ?mx p1 = length p1"
      by (simp add: scalar_inv_def p1_def mx1)
    from scalar_len_mono [OF this, of "drop c1 bytes"]
    have "length p1 \<le> scalar_len ?mx (p @ drop c bytes)"
      by (simp add: s)
    then have "c1 + (scalar_len ?mx (p @ drop c bytes) - length p1)
               = c + (scalar_len ?mx (p @ drop c bytes) - length p)"
      using lp1 lt by simp
    with loop r inv' mx' show ?thesis by simp
  qed
qed

lemma scalar_feed_inv:
  assumes "scalar_inv h mem m p" and "mem_holds mem data bytes"
  shows "\<exists>m'. ScalarMessage_feed h m data bytes =
            Some (scalar_len (ScalarMessage.maxSize m) (p @ bytes) - length p, m') \<and>
          scalar_inv h mem m' (take (scalar_len (ScalarMessage.maxSize m) (p @ bytes)) (p @ bytes)) \<and>
          ScalarMessage.maxSize m' = ScalarMessage.maxSize m"
  using scalar_feed_loop_inv [OF assms(1) _ assms(2), of 0]
  by (simp add: ScalarMessage_feed_def)

lemma scalar_len_stable:
  "scalar_len mx (take (scalar_len mx s) s @ x) = scalar_len mx (s @ x) \<and>
   take (scalar_len mx (s @ x)) (take (scalar_len mx s) s @ x) = take (scalar_len mx (s @ x)) (s @ x)"
proof (cases "scalar_len mx s = length s")
  case True
  then show ?thesis by simp
next
  case False
  then have l4: "4 \<le> length s"
    by (auto simp add: scalar_len_def split: if_splits)
  define v :: "32 word" where "v = word_of_be (take 4 s)"
  define L where "L = (if 0 < mx \<and> mx < v then 4 else 4 + unat v)"
  from False l4 have L: "scalar_len mx s = L" and Ll: "L < length s" and L4: "4 \<le> L"
    by (auto simp add: scalar_len_def Let_def v_def L_def min_def split: if_splits)
  have 1: "scalar_len mx (take L s @ x) = L"
    using l4 Ll L4 by (auto simp add: scalar_len_def Let_def v_def L_def min_def)
  have 2: "scalar_len mx (s @ x) = L"
    using l4 Ll L4 by (auto simp add: scalar_len_def Let_def v_def L_def min_def)
  show ?thesis
    unfolding L 1 2 using Ll by simp
qed

lemma scalar_feed_chunks_inv:
  assumes "scalar_inv h mem m p"
    and "\<forall>i < length cs. mem (CallerData (k + i)) = cs ! i"
  shows "\<exists>m'. ScalarMessage_feed_chunks h m k cs =
            Some (scalar_len (ScalarMessage.maxSize m) (p @ concat cs) - length p, m') \<and>
          scalar_inv h mem m' (take (scalar_len (ScalarMessage.maxSize m) (p @ concat cs))
                                 (p @ concat cs)) \<and>
          ScalarMessage.maxSize m' = ScalarMessage.maxSize m"
  using assms
proof (induction cs arbitrary: m p k)
  case Nil
  then show ?case by (simp add: scalar_inv_def)
next
  case (Cons c cs)
  let ?mx = "ScalarMessage.maxSize m"
  from Cons.prems(2) have "mem (CallerData k) = c"
    by (metis add.right_neutral length_greater_0_conv list.distinct(1) nth_Cons_0)
  then have holds: "mem_holds mem (CallerData k, 0) c"
    by (simp add: mem_holds_def)
  define p1 where "p1 = take (scalar_len ?mx (p @ c)) (p @ c)"
  from scalar_feed_inv [OF Cons.prems(1) holds]
  obtain m1 where f: "ScalarMessage_feed h m (CallerData k, 0) c =
        Some (scalar_len ?mx (p @ c) - length p, m1)"
    and inv1: "scalar_inv h mem m1 p1" and mx1: "ScalarMessage.maxSize m1 = ?mx"
    unfolding p1_def by blast
  have "\<forall>i < length cs. mem (CallerData (Suc k + i)) = cs ! i"
    using Cons.prems(2) by fastforce
  from Cons.IH [OF inv1 this]
  obtain m' where r: "ScalarMessage_feed_chunks h m1 (Suc k) cs =
        Some (scalar_len ?mx (p1 @ concat cs) - length p1, m')"
    and inv': "scalar_inv h mem m' (take (scalar_len ?mx (p1 @ concat cs)) (p1 @ concat cs))"
    and mx': "ScalarMessage.maxSize m' = ?mx"
    unfolding mx1 by blast
  from scalar_len_stable [of ?mx "p @ c" "concat cs"]
  have st1: "scalar_len ?mx (p1 @ concat cs) = scalar_len ?mx (p @ c @ concat cs)"
    and st2: "take (scalar_len ?mx (p @ c @ concat cs)) (p1 @ concat cs)
              = take (scalar_len ?mx (p @ c @ concat cs)) (p @ c @ concat cs)"
    by (simp_all add: p1_def)
  from Cons.prems(1) have self: "scalar_len ?mx p = length p"
    by (simp add: scalar_inv_def)
  have a: "length p \<le> scalar_len ?mx (p @ c)"
    by (rule scalar_len_mono [OF self])
  have lp1: "length p1 = scalar_len ?mx (p @ c)"
    using scalar_len_le [of ?mx "p @ c"] by (simp add: p1_def)
  from inv1 have "scalar_len ?mx p1 = length p1"
    by (simp add: scalar_inv_def mx1)
  from scalar_len_mono [OF this, of "concat cs"]
  have b: "length p1 \<le> scalar_len ?mx (p @ c @ concat cs)"
    by (simp add: st1)
  have "scalar_len ?mx (p @ c) - length p + (scalar_len ?mx (p @ c @ concat cs) - length p1)
        = scalar_len ?mx (p @ c @ concat cs) - length p"
    using a b lp1 by simp
  then have "ScalarMessage_feed_chunks h m k (c # cs) =
      Some (scalar_len ?mx (p @ concat (c # cs)) - length p, m')"
    using f r by (simp add: st1)
  moreover have "scalar_inv h mem m' (take (scalar_len ?mx (p @ concat (c # cs))) (p @ concat (c # cs)))"
    using inv' unfolding st1 st2 by simp
  ultimately show ?case using mx' by blast
qed

lemma hdr32_inv_init: "hdr32_inv h (Uint32Message_init v0) []"
  by (simp add: hdr32_inv_def Uint32Message_init_def)

lemma scalar_inv_init: "scalar_inv h mem (ScalarMessage_init mx v0 e0) []"
  by (rule scalar_inv_headerI) (simp_all add: ScalarMessage_init_def hdr32_inv_init)

lemma chunk_memory_upd: "(chunk_memory chunks x)(OwnBuffer := b) = chunk_memory chunks b"
  by (rule ext) (simp add: chunk_memory_def split: block.splits)

lemma scalar_inv_determines:
  assumes "scalar_inv h (chunk_memory cs1 x1) m1 p" and "scalar_inv h (chunk_memory cs2 x2) m2 p"
    and "ScalarMessage.maxSize m1 = ScalarMessage.maxSize m2"
  shows "ScalarMessage.state m1 = ScalarMessage.state m2 \<and>
         (ScalarMessage_hasError m1 \<longrightarrow>
            ScalarMessage_errorCode m1 = TOO_LARGE \<and> ScalarMessage_errorCode m2 = TOO_LARGE) \<and>
         ScalarMessage_value_bytes cs1 m1 = ScalarMessage_value_bytes cs2 m2"
proof -
  have nb: "len (ScalarMessage.result m) = 0 \<Longrightarrow> ScalarMessage_value_bytes cs m = []" for cs m
    by (simp add: ScalarMessage_value_bytes_def ScalarMessage_value_def StaticString_bytes_def)
  show ?thesis
    using assms
    by (auto simp add: scalar_inv_def Let_def nb chunk_memory_upd ScalarMessage_hasError_def
        ScalarMessage_errorCode_def
        ScalarMessage_value_bytes_def [unfolded ScalarMessage_value_def, symmetric]
        split: if_splits)
qed

lemma ScalarMessage_fragmentation:
  fixes chunks :: "byte list list" and mx v0 e0
  defines "m0 \<equiv> ScalarMessage_init mx v0 e0"
  shows "\<exists>n m1 m2.
           ScalarMessage_feed_chunks h m0 0 chunks = Some (n, m1) \<and>
           ScalarMessage_feed h m0 (CallerData 0, 0) (concat chunks) = Some (n, m2) \<and>
           ScalarMessage.state m1 = ScalarMessage.state m2 \<and>
           (ScalarMessage_hasError m1 \<longrightarrow>
              ScalarMessage_errorCode m1 = TOO_LARGE \<and> ScalarMessage_errorCode m2 = TOO_LARGE) \<and>
           ScalarMessage_value_bytes chunks m1 = ScalarMessage_value_bytes [concat chunks] m2"
proof -
  let ?mem1 = "chunk_memory chunks []" and ?mem2 = "chunk_memory [concat chunks] []"
  have mx0: "ScalarMessage.maxSize m0 = mx" by (simp add: m0_def ScalarMessage_init_def)
  have "\<forall>i < length chunks. ?mem1 (CallerData (0 + i)) = chunks ! i"
    by (simp add: chunk_memory_def)
  from scalar_feed_chunks_inv [OF scalar_inv_init this, of h mx v0 e0]
  obtain m1 where 1: "ScalarMessage_feed_chunks h m0 0 chunks =
        Some (scalar_len mx (concat chunks), m1)"
    and i1: "scalar_inv h ?mem1 m1 (take (scalar_len mx (concat chunks)) (concat chunks))"
    and mx1: "ScalarMessage.maxSize m1 = mx"
    unfolding m0_def [symmetric] mx0 by auto
  have "mem_holds ?mem2 (CallerData 0, 0) (concat chunks)"
    by (simp add: mem_holds_def chunk_memory_def)
  from scalar_feed_inv [OF scalar_inv_init this, of h mx v0 e0]
  obtain m2 where 2: "ScalarMessage_feed h m0 (CallerData 0, 0) (concat chunks) =
        Some (scalar_len mx (concat chunks), m2)"
    and i2: "scalar_inv h ?mem2 m2 (take (scalar_len mx (concat chunks)) (concat chunks))"
    and mx2: "ScalarMessage.maxSize m2 = mx"
    unfolding m0_def [symmetric] mx0 by auto
  from scalar_inv_determines [OF i1 i2] mx1 mx2 1 2 show ?thesis
    by simp
qed

section \<open>Splitting an array body\<close>

lemma memchr_Some_less: "memchr xs c = Some n \<Longrightarrow> n < length xs"
  by (induction xs arbitrary: n) (auto split: if_splits)

lemma memchr_None_iff: "memchr xs c = None \<longleftrightarrow> c \<notin> set xs"
  by (induction xs) auto

lemma memchr_append_found: "c \<notin> set f \<Longrightarrow> memchr (f @ c # rest) c = Some (length f)"
  by (induction f) auto

lemma nul_fields_notin:
  assumes "0 \<notin> set t"
  shows "nul_fields t = []"
proof -
  from assms have "memchr t 0 = None" by (simp add: memchr_None_iff)
  then show ?thesis by (subst nul_fields.simps) simp
qed

lemma nul_fields_terminated:
  assumes "\<forall>f \<in> set fs. 0 \<notin> set f" and "0 \<notin> set t"
  shows "nul_fields (concat (map (\<lambda>f. f @ [0]) fs) @ t) = fs"
  using assms
proof (induction fs)
  case Nil
  then show ?case by (simp add: nul_fields_notin)
next
  case (Cons f fs)
  then have "0 \<notin> set f" by simp
  from memchr_append_found [OF this]
  have "memchr (concat (map (\<lambda>f. f @ [0]) (f # fs)) @ t) 0 = Some (length f)"
    by simp
  then show ?case
    using Cons by (subst nul_fields.simps) simp
qed

lemma parseBody_loop_bytes:
  assumes "take (length bytes) (drop (snd data) (mem (fst data))) = bytes"
  shows "map (StaticString_bytes mem) (parseBody_loop data bytes start res) =
         map (StaticString_bytes mem) res @ nul_fields (drop start bytes)"
  using assms
proof (induction data bytes start res rule: parseBody_loop.induct)
  case (1 data bytes start res)
  show ?case
  proof (cases "memchr (drop start bytes) 0")
    case None
    then show ?thesis
      by (subst parseBody_loop.simps, subst nul_fields.simps) simp
  next
    case (Some n)
    from memchr_Some_less [OF Some] have le: "start + n < length bytes" by simp
    have "take n (drop (snd data + start) (mem (fst data)))
          = take n (drop start (take (length bytes) (drop (snd data) (mem (fst data)))))"
      using le by (simp add: drop_take add.commute)
    then have v: "StaticString_bytes mem \<lparr>content = ptr_add data start, len = n\<rparr>
          = take n (drop start bytes)"
      by (simp add: StaticString_bytes_def ptr_add_def "1.prems")
    have d: "drop (n + 1) (drop start bytes) = drop (start + n + 1) bytes"
      by (simp add: add.commute add.left_commute)
    have "nul_fields (drop start bytes)
          = take n (drop start bytes) # nul_fields (drop (start + n + 1) bytes)"
      by (subst nul_fields.simps) (simp only: Some option.case d)
    with "1.IH" [OF Some "1.prems"] v show ?thesis
      by (subst parseBody_loop.simps) (simp add: Some)
  qed
qed

section \<open>Reachable states of the array reader\<close>

lemma array_len_le: "array_len mx s \<le> length s"
  by (simp add: array_len_def Let_def)

lemma array_len_mono:
  assumes "array_len mx p = length p"
  shows "length p \<le> array_len mx (p @ x)"
proof (cases "length p < 2")
  case True
  then show ?thesis by (simp add: array_len_def Let_def)
next
  case False
  with assms show ?thesis
    by (auto simp add: array_len_def Let_def split: if_splits)
qed

lemma array_len_done:
  assumes "array_inv h mem m p" and "ArrayMessage_done m"
  shows "array_len (ArrayMessage.maxSize m) (p @ x) = length p"
  using assms
  by (auto simp add: array_inv_def array_len_def ArrayMessage_done_def Let_def split: if_splits)

lemma array_inv_not_done:
  assumes "array_inv h mem m p" and "\<not> ArrayMessage_done m"
  shows "ArrayMessage.state m = READING_HEADER \<and> length p < 2 \<or>
         ArrayMessage.state m = READING_BODY \<and> 2 \<le> length p"
  using assms
  by (auto simp add: array_inv_def ArrayMessage_done_def Let_def split: if_splits)

lemma array_inv_headerI:
  assumes "length p < 2" "hdr16_inv h (ArrayMessage.headerReader m) p"
    "ArrayMessage.state m = READING_HEADER" "ArrayMessage.buffer m = []"
    "ArrayMessage.result m = []"
  shows "array_inv h mem m p"
  using assms by (simp add: array_inv_def array_len_def)

lemma array_inv_errorI:
  assumes "length p = 2" "hdr16_inv h (ArrayMessage.headerReader m) p"
    "0 < ArrayMessage.maxSize m" "ArrayMessage.maxSize m < word_of_be p"
    "ArrayMessage.state m = ERROR" "ArrayMessage.error m = TOO_LARGE"
    "ArrayMessage.buffer m = []" "ArrayMessage.result m = []"
  shows "array_inv h mem m p"
  using assms by (simp add: array_inv_def array_len_def)

lemma array_inv_bodyI:
  assumes "2 \<le> length p" "hdr16_inv h (ArrayMessage.headerReader m) (take 2 p)"
    "\<not> (0 < ArrayMessage.maxSize m \<and> ArrayMessage.maxSize m < word_of_be (take 2 p))"
    "length p < 2 + unat (word_of_be (take 2 p) :: 16 word)"
    "ArrayMessage.state m = READING_BODY" "ArrayMessage.buffer m = drop 2 p"
    "ArrayMessage.result m = []"
  shows "array_inv h mem m p"
  using assms by (auto simp add: array_inv_def array_len_def Let_def)

lemma array_inv_doneI:
  assumes "2 \<le> length p" "hdr16_inv h (ArrayMessage.headerReader m) (take 2 p)"
    "\<not> (0 < ArrayMessage.maxSize m \<and> ArrayMessage.maxSize m < word_of_be (take 2 p))"
    "length p = 2 + unat (word_of_be (take 2 p) :: 16 word)"
    "ArrayMessage.state m = DONE"
    "map (StaticString_bytes (mem(OwnBuffer := ArrayMessage.buffer m))) (ArrayMessage.result m)
       = nul_fields (drop 2 p)"
  shows "array_inv h mem m p"
  using assms by (auto simp add: array_inv_def array_len_def Let_def)

lemma array_inv_headerD:
  assumes "array_inv h mem m p" "ArrayMessage.state m = READING_HEADER"
  shows "length p < 2" "hdr16_inv h (ArrayMessage.headerReader m) p"
    "ArrayMessage.buffer m = []" "ArrayMessage.result m = []"
proof -
  from assms show lp: "length p < 2"
    by (auto simp add: array_inv_def Let_def split: if_splits)
  with assms show "hdr16_inv h (ArrayMessage.headerReader m) p"
    "ArrayMessage.buffer m = []" "ArrayMessage.result m = []"
    by (simp_all add: array_inv_def)
qed

lemma array_inv_bodyD:
  assumes "array_inv h mem m p" "ArrayMessage.state m = READING_BODY"
  shows "2 \<le> length p" "hdr16_inv h (ArrayMessage.headerReader m) (take 2 p)"
    "\<not> (0 < ArrayMessage.maxSize m \<and> ArrayMessage.maxSize m < word_of_be (take 2 p))"
    "length p < 2 + unat (word_of_be (take 2 p) :: 16 word)"
    "ArrayMessage.buffer m = drop 2 p" "ArrayMessage.result m = []"
  using assms by (auto simp add: array_inv_def Let_def split: if_splits)

lemma array_body_header:
  assumes inv: "array_inv h mem m p"
    and st: "ArrayMessage.state m = READING_HEADER"
    and c: "c < length bytes"
  shows "\<exists>m' c'. ArrayMessage_feed_body h m data bytes c = Some (m', c') \<and>
           c < c' \<and> c' \<le> length bytes \<and>
           array_inv h mem m' (p @ take (c' - c) (drop c bytes)) \<and>
           ArrayMessage.maxSize m' = ArrayMessage.maxSize m"
proof -
  define d where "d = drop c bytes"
  obtain n hr where feed: "Uint16Message_feed h (ArrayMessage.headerReader m) d = (n, hr)"
    by (cases "Uint16Message_feed h (ArrayMessage.headerReader m) d")
  note D = array_inv_headerD [OF inv st]
  from Uint16Message_feed_inv [OF D(2) feed]
  have n: "n = min (length d) (2 - length p)" and hinv': "hdr16_inv h hr (p @ take n d)"
    by blast+
  have ld: "length d = length bytes - c" by (simp add: d_def)
  with n c D(1) have npos: "0 < n" and nle: "c + n \<le> length bytes"
    and lt: "length (take n d) = n"
    by auto
  define p' where "p' = p @ take n d"
  have lp': "length p' = length p + n" and lp4: "length p' \<le> 2"
    using lt n D(1) by (auto simp: p'_def)
  have hinv'': "hdr16_inv h hr p'" using hinv' by (simp add: p'_def)
  have tp': "take 2 p' = p'" using lp4 by simp
  have hc: "Uint16Message.consumed hr = length p'"
    using hinv'' by (simp add: hdr16_inv_def)
  define m1 where "m1 = m\<lparr>ArrayMessage.headerReader := hr\<rparr>"
  have "\<exists>m'. ArrayMessage_feed_body h m data bytes c = Some (m', c + n) \<and>
             array_inv h mem m' p' \<and> ArrayMessage.maxSize m' = ArrayMessage.maxSize m"
  proof (cases "length p' = 2")
    case False
    then have nd: "\<not> Uint16Message_done hr"
      by (simp add: Uint16Message_done_def hc)
    have body: "ArrayMessage_feed_body h m data bytes c = Some (m1, c + n)"
      using feed nd st by (simp add: ArrayMessage_feed_body_def Let_def d_def m1_def)
    from False lp4 have "length p' < 2" by simp
    then have "array_inv h mem m1 p'"
      by (rule array_inv_headerI) (simp_all add: m1_def hinv'' st D)
    with body show ?thesis by (simp add: m1_def)
  next
    case True
    then have dn: "Uint16Message_done hr"
      by (simp add: Uint16Message_done_def hc)
    define v :: "16 word" where "v = word_of_be p'"
    have v: "Uint16Message_value hr = v"
      using hinv'' True by (simp add: hdr16_inv_def Uint16Message_value_def v_def)
    consider (err) "ArrayMessage.maxSize m > 0 \<and> v > ArrayMessage.maxSize m"
      | (zero) "\<not> (ArrayMessage.maxSize m > 0 \<and> v > ArrayMessage.maxSize m)" "v = 0"
      | (body) "\<not> (ArrayMessage.maxSize m > 0 \<and> v > ArrayMessage.maxSize m)" "v \<noteq> 0"
      by blast
    then show ?thesis
    proof cases
      case err
      define m' where "m' = m1\<lparr>ArrayMessage.state := ERROR, ArrayMessage.error := TOO_LARGE\<rparr>"
      have body: "ArrayMessage_feed_body h m data bytes c = Some (m', c + n)"
        using feed dn st v err
        by (simp add: ArrayMessage_feed_body_def Let_def d_def m'_def m1_def)
      have "array_inv h mem m' p'"
        using True err
        by (intro array_inv_errorI) (simp_all add: m'_def m1_def hinv'' D v_def)
      with body show ?thesis by (simp add: m'_def m1_def)
    next
      case zero
      define m' where "m' = m1\<lparr>ArrayMessage.state := DONE\<rparr>"
      have c0: "(0 < ArrayMessage.maxSize m \<and> ArrayMessage.maxSize m < v) = False"
        using zero by simp
      have body: "ArrayMessage_feed_body h m data bytes c = Some (m', c + n)"
        unfolding ArrayMessage_feed_body_def Let_def
        using feed dn st v zero(2)
        by (simp add: d_def m'_def m1_def)
      have "array_inv h mem m' p'"
        using True zero
        by (intro array_inv_doneI)
          (simp_all add: m'_def m1_def hinv'' D v_def tp' nul_fields_notin)
      with body show ?thesis by (simp add: m'_def m1_def)
    next
      case body
      define m' where "m' = m1\<lparr>ArrayMessage.state := READING_BODY\<rparr>"
      have c0: "(0 < ArrayMessage.maxSize m \<and> ArrayMessage.maxSize m < v) = False"
        using body by simp
      have fb: "ArrayMessage_feed_body h m data bytes c = Some (m', c + n)"
        unfolding ArrayMessage_feed_body_def Let_def
        using feed dn st v body(2)
        by (simp add: d_def c0) (simp add: m'_def m1_def)
      have "0 < unat v" using body(2) by (simp add: unat_gt_0)
      then have "array_inv h mem m' p'"
        using True body
        by (intro array_inv_bodyI)
          (simp_all add: m'_def m1_def hinv'' D v_def tp')
      with fb show ?thesis by (simp add: m'_def m1_def)
    qed
  qed
  with npos nle show ?thesis
    by (auto simp add: p'_def d_def)
qed

lemma parseBody_caller:
  assumes "mem_holds mem data bytes" and "c + n \<le> length bytes"
  shows "map (StaticString_bytes (mem(OwnBuffer := b)))
           (ArrayMessage.result (parseBody m (ptr_add data c) (take n (drop c bytes))))
         = map (StaticString_bytes (mem(OwnBuffer := b))) (ArrayMessage.result m)
           @ nul_fields (take n (drop c bytes))"
proof -
  let ?mem = "mem(OwnBuffer := b)" and ?bs = "take n (drop c bytes)"
  from assms(1) have b: "fst data \<noteq> OwnBuffer"
    and t: "take (length bytes) (drop (snd data) (mem (fst data))) = bytes"
    by (simp_all add: mem_holds_def)
  have "take n (drop (snd data + c) (mem (fst data)))
        = take n (drop c (take (length bytes) (drop (snd data) (mem (fst data)))))"
    using assms(2) by (simp add: drop_take add.commute)
  with t b assms(2)
  have "take (length ?bs) (drop (snd (ptr_add data c)) (?mem (fst (ptr_add data c)))) = ?bs"
    by (simp add: ptr_add_def)
  from parseBody_loop_bytes [where bytes = ?bs and data = "ptr_add data c" and mem = ?mem
      and start = 0 and res = "ArrayMessage.result m", OF this]
  show ?thesis
    by (simp add: parseBody_def)
qed

lemma parseBody_own:
  "map (StaticString_bytes (mem(OwnBuffer := b))) (ArrayMessage.result (parseBody m (OwnBuffer, 0) b))
   = map (StaticString_bytes (mem(OwnBuffer := b))) (ArrayMessage.result m) @ nul_fields b"
proof -
  have "take (length b) (drop (snd (OwnBuffer, 0 :: nat)) ((mem(OwnBuffer := b)) (fst (OwnBuffer, 0 :: nat)))) = b"
    by simp
  from parseBody_loop_bytes [where bytes = b and data = "(OwnBuffer, 0)"
      and mem = "mem(OwnBuffer := b)" and start = 0 and res = "ArrayMessage.result m", OF this]
  show ?thesis
    by (simp add: parseBody_def)
qed

lemma parseBody_fields [simp]:
  "ArrayMessage.state (parseBody m data bytes) = ArrayMessage.state m"
  "ArrayMessage.buffer (parseBody m data bytes) = ArrayMessage.buffer m"
  "ArrayMessage.headerReader (parseBody m data bytes) = ArrayMessage.headerReader m"
  "ArrayMessage.maxSize (parseBody m data bytes) = ArrayMessage.maxSize m"
  "ArrayMessage.error (parseBody m data bytes) = ArrayMessage.error m"
  "ArrayMessage.toReserve (parseBody m data bytes) = ArrayMessage.toReserve m"
  by (simp_all add: parseBody_def)

lemma array_body_body:
  assumes inv: "array_inv h mem m p"
    and st: "ArrayMessage.state m = READING_BODY"
    and c: "c < length bytes"
    and mem: "mem_holds mem data bytes"
  shows "\<exists>m' c'. ArrayMessage_feed_body h m data bytes c = Some (m', c') \<and>
           c < c' \<and> c' \<le> length bytes \<and>
           array_inv h mem m' (p @ take (c' - c) (drop c bytes)) \<and>
           ArrayMessage.maxSize m' = ArrayMessage.maxSize m"
proof -
  define d where "d = drop c bytes"
  define v :: "16 word" where "v = word_of_be (take 2 p)"
  note D = array_inv_bodyD [OF inv st, folded v_def]
  from D(1,2) have tv: "Uint16Message_value (ArrayMessage.headerReader m) = v"
    by (simp add: hdr16_inv_def Uint16Message_value_def v_def)
  have ld: "length d = length bytes - c" by (simp add: d_def)
  show ?thesis
  proof (cases "ArrayMessage.buffer m = [] \<and> unat v \<le> length bytes - c")
    case True
    then have lp4: "length p = 2" using D(1,5) by simp
    define m' where "m' = (parseBody m (ptr_add data c) (take (unat v) (drop c bytes)))
                            \<lparr>ArrayMessage.state := DONE\<rparr>"
    have body: "ArrayMessage_feed_body h m data bytes c = Some (m', c + unat v)"
      using st True tv by (simp add: ArrayMessage_feed_body_def Let_def m'_def)
    have vpos: "0 < unat v" using D(4) lp4 by simp
    have le: "c + unat v \<le> length bytes" using True c by linarith
    define p' where "p' = p @ take (unat v) d"
    have lp': "length p' = 2 + unat v" and tp': "take 2 p' = take 2 p"
      and dp': "drop 2 p' = take (unat v) d"
      using lp4 le ld by (simp_all add: p'_def)
    have "array_inv h mem m' p'"
      using D(3) lp'
      by (intro array_inv_doneI)
        (simp_all add: tp' dp' v_def [symmetric] m'_def D(2,6)
          parseBody_caller [OF mem le] d_def)
    with body vpos le show ?thesis
      by (auto simp add: d_def m'_def p'_def)
  next
    case False
    define k where "k = min (length bytes - c) (unat v - length (ArrayMessage.buffer m))"
    define m1 where "m1 = m\<lparr>ArrayMessage.buffer := ArrayMessage.buffer m @ take k d\<rparr>"
    have cond: "(ArrayMessage.buffer m = [] \<and>
        unat (Uint16Message_value (ArrayMessage.headerReader m)) \<le> length bytes - c) = False"
      using False tv by simp
    have lb: "length (ArrayMessage.buffer m) = length p - 2" using D(5) by simp
    have kpos: "0 < k" and kle: "c + k \<le> length bytes" and lk: "length (take k d) = k"
      and kv: "length p + k \<le> 2 + unat v"
      using c D(1,4) lb ld by (auto simp add: k_def)
    define p' where "p' = p @ take k d"
    have lp': "length p' = length p + k" and tp': "take 2 p' = take 2 p"
      and dp': "drop 2 p' = drop 2 p @ take k d"
      using lk D(1) by (simp_all add: p'_def)
    have lb1: "length (ArrayMessage.buffer m1) = length p' - 2"
      using lb lk lp' D(1) by (simp add: m1_def)
    have "\<exists>m'. ArrayMessage_feed_body h m data bytes c = Some (m', c + k) \<and>
             array_inv h mem m' p' \<and> ArrayMessage.maxSize m' = ArrayMessage.maxSize m"
    proof (cases "length p' = 2 + unat v")
      case True
      define m' where "m' = (parseBody m1 (OwnBuffer, 0) (ArrayMessage.buffer m1))
                              \<lparr>ArrayMessage.state := DONE\<rparr>"
      have full: "length (ArrayMessage.buffer m1) = unat v" using lb1 True by simp
      have body: "ArrayMessage_feed_body h m data bytes c = Some (m', c + k)"
        unfolding ArrayMessage_feed_body_def Let_def
        using full
        by (simp add: st cond) (simp add: tv m'_def m1_def k_def d_def)
      have "array_inv h mem m' p'"
        using D(3) True lk
        by (intro array_inv_doneI)
          (simp_all add: tp' dp' v_def [symmetric] m'_def m1_def D(2,5,6) parseBody_own)
      with body show ?thesis by (simp add: m'_def m1_def)
    next
      case F: False
      then have notfull: "length (ArrayMessage.buffer m1) \<noteq> unat v"
        using lb1 lp' D(1) by simp
      have body: "ArrayMessage_feed_body h m data bytes c = Some (m1, c + k)"
        unfolding ArrayMessage_feed_body_def Let_def
        using notfull
        by (simp add: st cond) (simp add: tv m1_def k_def d_def)
      have "length p' < 2 + unat v" using F kv lp' by simp
      then have "array_inv h mem m1 p'"
        using D(3) lp' D(1)
        by (intro array_inv_bodyI)
          (simp_all add: tp' dp' v_def [symmetric] m1_def D(2,5,6) st)
      with body show ?thesis by (simp add: m1_def)
    qed
    with kpos kle show ?thesis
      by (auto simp add: d_def p'_def)
  qed
qed

lemma array_body_step:
  assumes inv: "array_inv h mem m p"
    and nd: "\<not> ArrayMessage_done m"
    and c: "c < length bytes"
    and mem: "mem_holds mem data bytes"
  shows "\<exists>m' c'. ArrayMessage_feed_body h m data bytes c = Some (m', c') \<and>
           c < c' \<and> c' \<le> length bytes \<and>
           array_inv h mem m' (p @ take (c' - c) (drop c bytes)) \<and>
           ArrayMessage.maxSize m' = ArrayMessage.maxSize m"
proof (cases "ArrayMessage.state m")
  case READING_HEADER
  from array_body_header [OF inv this c] show ?thesis .
next
  case READING_BODY
  from array_body_body [OF inv this c mem] show ?thesis .
qed (use nd in \<open>simp_all add: ArrayMessage_done_def\<close>)

lemma array_feed_loop_inv:
  assumes "array_inv h mem m p" and "c \<le> length bytes" and "mem_holds mem data bytes"
  shows "\<exists>m'. ArrayMessage_feed_loop h m data bytes c =
            Some (c + (array_len (ArrayMessage.maxSize m) (p @ drop c bytes) - length p), m') \<and>
          array_inv h mem m' (take (array_len (ArrayMessage.maxSize m) (p @ drop c bytes))
                                 (p @ drop c bytes)) \<and>
          ArrayMessage.maxSize m' = ArrayMessage.maxSize m"
  using assms
proof (induction "length bytes - c" arbitrary: m p c rule: less_induct)
  case less
  note inv = less.prems(1) and cle = less.prems(2) and mem = less.prems(3)
  let ?mx = "ArrayMessage.maxSize m"
  from inv have self: "array_len ?mx p = length p"
    by (simp add: array_inv_def)
  show ?case
  proof (cases "c < length bytes \<and> \<not> ArrayMessage_done m")
    case False
    then have loop: "ArrayMessage_feed_loop h m data bytes c = Some (c, m)"
      by (subst ArrayMessage_feed_loop.simps) auto
    have "array_len ?mx (p @ drop c bytes) = length p"
    proof (cases "c < length bytes")
      case True
      with False have "ArrayMessage_done m" by simp
      from array_len_done [OF inv this] show ?thesis .
    next
      case False
      with cle self show ?thesis by simp
    qed
    with loop inv show ?thesis by simp
  next
    case True
    then have c: "c < length bytes" and nd: "\<not> ArrayMessage_done m" by simp_all
    from array_body_step [OF inv nd c mem]
    obtain m1 c1 where body: "ArrayMessage_feed_body h m data bytes c = Some (m1, c1)"
      and lt: "c < c1" and le: "c1 \<le> length bytes"
      and inv1: "array_inv h mem m1 (p @ take (c1 - c) (drop c bytes))"
      and mx1: "ArrayMessage.maxSize m1 = ?mx"
      by blast
    define p1 where "p1 = p @ take (c1 - c) (drop c bytes)"
    have s: "p1 @ drop c1 bytes = p @ drop c bytes"
    proof -
      have e: "c1 - c + c = c1" using lt by simp
      have "drop c1 bytes = drop (c1 - c) (drop c bytes)"
        by (simp add: e)
      then show ?thesis
        unfolding p1_def by (simp only: append_assoc append_take_drop_id)
    qed
    have lp1: "length p1 = length p + (c1 - c)"
      using le lt by (simp add: p1_def)
    have loop: "ArrayMessage_feed_loop h m data bytes c = ArrayMessage_feed_loop h m1 data bytes c1"
      by (subst ArrayMessage_feed_loop.simps) (simp add: True body)
    have "length bytes - c1 < length bytes - c" using lt c by simp
    from less.hyps [OF this inv1 [folded p1_def] le mem]
    obtain m' where
      r: "ArrayMessage_feed_loop h m1 data bytes c1 =
            Some (c1 + (array_len ?mx (p @ drop c bytes) - length p1), m')"
      and inv': "array_inv h mem m' (take (array_len ?mx (p @ drop c bytes)) (p @ drop c bytes))"
      and mx': "ArrayMessage.maxSize m' = ?mx"
      unfolding s mx1 by blast
    from inv1 have "array_len ?mx p1 = length p1"
      by (simp add: array_inv_def p1_def mx1)
    from array_len_mono [OF this, of "drop c1 bytes"]
    have "length p1 \<le> array_len ?mx (p @ drop c bytes)"
      by (simp add: s)
    then have "c1 + (array_len ?mx (p @ drop c bytes) - length p1)
               = c + (array_len ?mx (p @ drop c bytes) - length p)"
      using lp1 lt by simp
    with loop r inv' mx' show ?thesis by simp
  qed
qed

lemma array_feed_inv:
  assumes "array_inv h mem m p" and "mem_holds mem data bytes"
  shows "\<exists>m'. ArrayMessage_feed h m data bytes =
            Some (array_len (ArrayMessage.maxSize m) (p @ bytes) - length p, m') \<and>
          array_inv h mem m' (take (array_len (ArrayMessage.maxSize m) (p @ bytes)) (p @ bytes)) \<and>
          ArrayMessage.maxSize m' = ArrayMessage.maxSize m"
  using array_feed_loop_inv [OF assms(1) _ assms(2), of 0]
  by (simp add: ArrayMessage_feed_def)

lemma array_len_stable:
  "array_len mx (take (array_len mx s) s @ x) = array_len mx (s @ x) \<and>
   take (array_len mx (s @ x)) (take (array_len mx s) s @ x) = take (array_len mx (s @ x)) (s @ x)"
proof (cases "array_len mx s = length s")
  case True
  then show ?thesis by simp
next
  case False
  then have l4: "2 \<le> length s"
    by (auto simp add: array_len_def split: if_splits)
  define v :: "16 word" where "v = word_of_be (take 2 s)"
  define L where "L = (if 0 < mx \<and> mx < v then 2 else 2 + unat v)"
  from False l4 have L: "array_len mx s = L" and Ll: "L < length s" and L4: "2 \<le> L"
    by (auto simp add: array_len_def Let_def v_def L_def min_def split: if_splits)
  have 1: "array_len mx (take L s @ x) = L"
    using l4 Ll L4 by (auto simp add: array_len_def Let_def v_def L_def min_def)
  have 2: "array_len mx (s @ x) = L"
    using l4 Ll L4 by (auto simp add: array_len_def Let_def v_def L_def min_def)
  show ?thesis
    unfolding L 1 2 using Ll by simp
qed

lemma array_feed_chunks_inv:
  assumes "array_inv h mem m p"
    and "\<forall>i < length cs. mem (CallerData (k + i)) = cs ! i"
  shows "\<exists>m'. ArrayMessage_feed_chunks h m k cs =
            Some (array_len (ArrayMessage.maxSize m) (p @ concat cs) - length p, m') \<and>
          array_inv h mem m' (take (array_len (ArrayMessage.maxSize m) (p @ concat cs))
                                 (p @ concat cs)) \<and>
          ArrayMessage.maxSize m' = ArrayMessage.maxSize m"
  using assms
proof (induction cs arbitrary: m p k)
  case Nil
  then show ?case by (simp add: array_inv_def)
next
  case (Cons c cs)
  let ?mx = "ArrayMessage.maxSize m"
  from Cons.prems(2) have "mem (CallerData k) = c"
    by (metis add.right_neutral length_greater_0_conv list.distinct(1) nth_Cons_0)
  then have holds: "mem_holds mem (CallerData k, 0) c"
    by (simp add: mem_holds_def)
  define p1 where "p1 = take (array_len ?mx (p @ c)) (p @ c)"
  from array_feed_inv [OF Cons.prems(1) holds]
  obtain m1 where f: "ArrayMessage_feed h m (CallerData k, 0) c =
        Some (array_len ?mx (p @ c) - length p, m1)"
    and inv1: "array_inv h mem m1 p1" and mx1: "ArrayMessage.maxSize m1 = ?mx"
    unfolding p1_def by blast
  have "\<forall>i < length cs. mem (CallerData (Suc k + i)) = cs ! i"
    using Cons.prems(2) by fastforce
  from Cons.IH [OF inv1 this]
  obtain m' where r: "ArrayMessage_feed_chunks h m1 (Suc k) cs =
        Some (array_len ?mx (p1 @ concat cs) - length p1, m')"
    and inv': "array_inv h mem m' (take (array_len ?mx (p1 @ concat cs)) (p1 @ concat cs))"
    and mx': "ArrayMessage.maxSize m' = ?mx"
    unfolding mx1 by blast
  from array_len_stable [of ?mx "p @ c" "concat cs"]
  have st1: "array_len ?mx (p1 @ concat cs) = array_len ?mx (p @ c @ concat cs)"
    and st2: "take (array_len ?mx (p @ c @ concat cs)) (p1 @ concat cs)
              = take (array_len ?mx (p @ c @ concat cs)) (p @ c @ concat cs)"
    by (simp_all add: p1_def)
  from Cons.prems(1) have self: "array_len ?mx p = length p"
    by (simp add: array_inv_def)
  have a: "length p \<le> array_len ?mx (p @ c)"
    by (rule array_len_mono [OF self])
  have lp1: "length p1 = array_len ?mx (p @ c)"
    using array_len_le [of ?mx "p @ c"] by (simp add: p1_def)
  from inv1 have "array_len ?mx p1 = length p1"
    by (simp add: array_inv_def mx1)
  from array_len_mono [OF this, of "concat cs"]
  have b: "length p1 \<le> array_len ?mx (p @ c @ concat cs)"
    by (simp add: st1)
  have "array_len ?mx (p @ c) - length p + (array_len ?mx (p @ c @ concat cs) - length p1)
        = array_len ?mx (p @ c @ concat cs) - length p"
    using a b lp1 by simp
  then have "ArrayMessage_feed_chunks h m k (c # cs) =
      Some (array_len ?mx (p @ concat (c # cs)) - length p, m')"
    using f r by (simp add: st1)
  moreover have "array_inv h mem m' (take (array_len ?mx (p @ concat (c # cs))) (p @ concat (c # cs)))"
    using inv' unfolding st1 st2 by simp
  ultimately show ?case using mx' by blast
qed

lemma hdr16_inv_init: "hdr16_inv h (Uint16Message_init v0) []"
  by (simp add: hdr16_inv_def Uint16Message_init_def)

lemma array_inv_init: "array_inv h mem (ArrayMessage_setMaxSize (ArrayMessage_init v0 e0) mx) []"
  by (rule array_inv_headerI)
    (simp_all add: ArrayMessage_init_def ArrayMessage_setMaxSize_def hdr16_inv_init)

lemma array_inv_determines:
  assumes "array_inv h (chunk_memory cs1 x1) m1 p" and "array_inv h (chunk_memory cs2 x2) m2 p"
    and "ArrayMessage.maxSize m1 = ArrayMessage.maxSize m2"
  shows "ArrayMessage.state m1 = ArrayMessage.state m2 \<and>
         (ArrayMessage_hasError m1 \<longrightarrow>
            ArrayMessage_errorCode m1 = TOO_LARGE \<and> ArrayMessage_errorCode m2 = TOO_LARGE) \<and>
         ArrayMessage_value_bytes cs1 m1 = ArrayMessage_value_bytes cs2 m2"
proof -
  have nb: "ArrayMessage.result m = [] \<Longrightarrow> ArrayMessage_value_bytes cs m = []" for cs m
    by (simp add: ArrayMessage_value_bytes_def ArrayMessage_value_def StaticString_bytes_def)
  show ?thesis
    using assms
    by (auto simp add: array_inv_def Let_def nb chunk_memory_upd ArrayMessage_hasError_def
        ArrayMessage_errorCode_def
        ArrayMessage_value_bytes_def [unfolded ArrayMessage_value_def, symmetric]
        split: if_splits)
qed

lemma ArrayMessage_fragmentation:
  fixes chunks :: "byte list list" and mx v0 e0
  defines "m0 \<equiv> ArrayMessage_setMaxSize (ArrayMessage_init v0 e0) mx"
  shows "\<exists>n m1 m2.
           ArrayMessage_feed_chunks h m0 0 chunks = Some (n, m1) \<and>
           ArrayMessage_feed h m0 (CallerData 0, 0) (concat chunks) = Some (n, m2) \<and>
           ArrayMessage.state m1 = ArrayMessage.state m2 \<and>
           (ArrayMessage_hasError m1 \<longrightarrow>
              ArrayMessage_errorCode m1 = TOO_LARGE \<and> ArrayMessage_errorCode m2 = TOO_LARGE) \<and>
           ArrayMessage_value_bytes chunks m1 = ArrayMessage_value_bytes [concat chunks] m2"
proof -
  let ?mem1 = "chunk_memory chunks []" and ?mem2 = "chunk_memory [concat chunks] []"
  have mx0: "ArrayMessage.maxSize m0 = mx" by (simp add: m0_def ArrayMessage_init_def ArrayMessage_setMaxSize_def)
  have "\<forall>i < length chunks. ?mem1 (CallerData (0 + i)) = chunks ! i"
    by (simp add: chunk_memory_def)
  from array_feed_chunks_inv [OF array_inv_init [of h ?mem1 v0 e0 mx] this]
  obtain m1 where 1: "ArrayMessage_feed_chunks h m0 0 chunks =
        Some (array_len mx (concat chunks), m1)"
    and i1: "array_inv h ?mem1 m1 (take (array_len mx (concat chunks)) (concat chunks))"
    and mx1: "ArrayMessage.maxSize m1 = mx"
    unfolding m0_def [symmetric] mx0 by auto
  have "mem_holds ?mem2 (CallerData 0, 0) (concat chunks)"
    by (simp add: mem_holds_def chunk_memory_def)
  from array_feed_inv [OF array_inv_init [of h ?mem2 v0 e0 mx] this]
  obtain m2 where 2: "ArrayMessage_feed h m0 (CallerData 0, 0) (concat chunks) =
        Some (array_len mx (concat chunks), m2)"
    and i2: "array_inv h ?mem2 m2 (take (array_len mx (concat chunks)) (concat chunks))"
    and mx2: "ArrayMessage.maxSize m2 = mx"
    unfolding m0_def [symmetric] mx0 by auto
  from array_inv_determines [OF i1 i2] mx1 mx2 1 2 show ?thesis
    by simp
qed

section \<open>Runs from a fresh reader\<close>

lemma ArrayMessage_setMaxSize_init [simp]:
  "ArrayMessage_setMaxSize (ArrayMessage_init v0 e0) 0 = ArrayMessage_init v0 e0"
  by (simp add: ArrayMessage_setMaxSize_def ArrayMessage_init_def)

lemma ScalarMessage_setMaxSize_init [simp]:
  "ScalarMessage_setMaxSize (ScalarMessage_init mx0 v0 e0) mx = ScalarMessage_init mx v0 e0"
  by (simp add: ScalarMessage_setMaxSize_def ScalarMessage_init_def)

lemma ArrayMessage_run:
  fixes chunks :: "byte list list"
  defines "s \<equiv> concat chunks"
  shows "\<exists>m. ArrayMessage_feed_chunks h (ArrayMessage_setMaxSize (ArrayMessage_init v0 e0) mx) 0 chunks
              = Some (array_len mx s, m) \<and>
            array_inv h (chunk_memory chunks []) m (take (array_len mx s) s) \<and>
            ArrayMessage.maxSize m = mx"
proof -
  let ?m0 = "ArrayMessage_setMaxSize (ArrayMessage_init v0 e0) mx"
  have mx0: "ArrayMessage.maxSize ?m0 = mx"
    by (simp add: ArrayMessage_init_def ArrayMessage_setMaxSize_def)
  have "\<forall>i < length chunks. chunk_memory chunks [] (CallerData (0 + i)) = chunks ! i"
    by (simp add: chunk_memory_def)
  from array_feed_chunks_inv [OF array_inv_init [of h "chunk_memory chunks []" v0 e0 mx] this]
  show ?thesis
    unfolding mx0 s_def by simp
qed

lemma ScalarMessage_run:
  fixes chunks :: "byte list list"
  defines "s \<equiv> concat chunks"
  shows "\<exists>m. ScalarMessage_feed_chunks h (ScalarMessage_init mx v0 e0) 0 chunks
              = Some (scalar_len mx s, m) \<and>
            scalar_inv h (chunk_memory chunks []) m (take (scalar_len mx s) s) \<and>
            ScalarMessage.maxSize m = mx"
proof -
  let ?m0 = "ScalarMessage_init mx v0 e0"
  have mx0: "ScalarMessage.maxSize ?m0 = mx"
    by (simp add: ScalarMessage_init_def)
  have "\<forall>i < length chunks. chunk_memory chunks [] (CallerData (0 + i)) = chunks ! i"
    by (simp add: chunk_memory_def)
  from scalar_feed_chunks_inv [OF scalar_inv_init [of h "chunk_memory chunks []" mx v0 e0] this]
  show ?thesis
    unfolding mx0 s_def by simp
qed

lemma ArrayMessage_feed_chunks_single:
  "ArrayMessage_feed_chunks h m k [c] = ArrayMessage_feed h m (CallerData k, 0) c"
  by (simp split: option.splits)

lemma ScalarMessage_feed_chunks_single:
  "ScalarMessage_feed_chunks h m k [c] = ScalarMessage_feed h m (CallerData k, 0) c"
  by (simp split: option.splits)

text \<open>What the description of a reachable state says about each kind of prefix.\<close>

lemma array_inv_short:
  assumes "array_inv h mem m p" and "length p < 2"
  shows "ArrayMessage.state m = READING_HEADER" "ArrayMessage.buffer m = []"
    "ArrayMessage.result m = []"
  using assms by (simp_all add: array_inv_def)

lemma array_inv_error:
  assumes "array_inv h mem m p" and "2 \<le> length p"
    and "0 < ArrayMessage.maxSize m" and "ArrayMessage.maxSize m < word_of_be (take 2 p)"
  shows "ArrayMessage.state m = ERROR" "ArrayMessage.error m = TOO_LARGE"
    "ArrayMessage.buffer m = []" "ArrayMessage.result m = []" "length p = 2"
  using assms by (auto simp add: array_inv_def array_len_def Let_def split: if_splits)

lemma array_inv_body:
  assumes "array_inv h mem m p" and "2 \<le> length p"
    and "\<not> (0 < ArrayMessage.maxSize m \<and> ArrayMessage.maxSize m < word_of_be (take 2 p))"
    and "length p < 2 + unat (word_of_be (take 2 p) :: 16 word)"
  shows "ArrayMessage.state m = READING_BODY" "ArrayMessage.buffer m = drop 2 p"
    "ArrayMessage.result m = []"
  using assms by (auto simp add: array_inv_def Let_def split: if_splits)

lemma array_inv_done:
  assumes "array_inv h mem m p" and "2 \<le> length p"
    and "\<not> (0 < ArrayMessage.maxSize m \<and> ArrayMessage.maxSize m < word_of_be (take 2 p))"
    and "\<not> length p < 2 + unat (word_of_be (take 2 p) :: 16 word)"
  shows "ArrayMessage.state m = DONE"
    "map (StaticString_bytes (mem(OwnBuffer := ArrayMessage.buffer m))) (ArrayMessage.result m)
       = nul_fields (drop 2 p)"
  using assms by (auto simp add: array_inv_def Let_def split: if_splits)

lemma scalar_inv_short:
  assumes "scalar_inv h mem m p" and "length p < 4"
  shows "ScalarMessage.state m = READING_HEADER" "ScalarMessage.buffer m = []"
    "len (ScalarMessage.result m) = 0"
  using assms by (simp_all add: scalar_inv_def)

lemma scalar_inv_error:
  assumes "scalar_inv h mem m p" and "4 \<le> length p"
    and "0 < ScalarMessage.maxSize m" and "ScalarMessage.maxSize m < word_of_be (take 4 p)"
  shows "ScalarMessage.state m = ERROR" "ScalarMessage.error m = TOO_LARGE"
    "ScalarMessage.buffer m = []" "len (ScalarMessage.result m) = 0" "length p = 4"
  using assms by (auto simp add: scalar_inv_def scalar_len_def Let_def split: if_splits)

lemma scalar_inv_body:
  assumes "scalar_inv h mem m p" and "4 \<le> length p"
    and "\<not> (0 < ScalarMessage.maxSize m \<and> ScalarMessage.maxSize m < word_of_be (take 4 p))"
    and "length p < 4 + unat (word_of_be (take 4 p) :: 32 word)"
  shows "ScalarMessage.state m = READING_BODY" "ScalarMessage.buffer m = drop 4 p"
    "len (ScalarMessage.result m) = 0"
  using assms by (auto simp add: scalar_inv_def Let_def split: if_splits)

lemma scalar_inv_done:
  assumes "scalar_inv h mem m p" and "4 \<le> length p"
    and "\<not> (0 < ScalarMessage.maxSize m \<and> ScalarMessage.maxSize m < word_of_be (take 4 p))"
    and "\<not> length p < 4 + unat (word_of_be (take 4 p) :: 32 word)"
  shows "ScalarMessage.state m = DONE"
    "StaticString_bytes (mem(OwnBuffer := ScalarMessage.buffer m)) (ScalarMessage.result m)
       = drop 4 p"
  using assms by (auto simp add: scalar_inv_def Let_def split: if_splits)

section \<open>Generated messages and their decoding\<close>

lemma ArrayMessage_generate_size_eq:
  "s0 + sum_list (map (\<lambda>a. length a + 1) args) < 2 ^ 32 \<Longrightarrow>
   ArrayMessage_generate_size args s0 = s0 + sum_list (map (\<lambda>a. length a + 1) args)"
proof (induction args arbitrary: s0)
  case Nil
  then show ?case by simp
next
  case (Cons a args)
  then have "s0 + (length a + 1) < 2 ^ 32" by simp
  then have "(s0 + (length a + 1)) mod 2 ^ 32 = s0 + (length a + 1)" by simp
  with Cons show ?case by (simp add: add.assoc)
qed

lemma concat_interleave:
  "concat (concat (map (\<lambda>a. [a, [0 :: byte]]) args)) = concat (map (\<lambda>a. a @ [0]) args)"
  by (induction args) simp_all

lemma length_concat_terminated:
  "length (concat (map (\<lambda>a. a @ [0 :: byte]) args)) = sum_list (map (\<lambda>a. length a + 1) args)"
  by (induction args) simp_all

lemma ArrayMessage_generate_ok:
  assumes size: "sum_list (map (\<lambda>a. length a + 1) args) \<le> 65535"
    and out: "ArrayMessage_outputSize (length args) \<le> outCount"
  shows "ArrayMessage_generate h args outCount =
           Inr (be_bytes 2 (of_nat (sum_list (map (\<lambda>a. length a + 1) args)) :: 16 word)
                # concat (map (\<lambda>a. [a, [0]]) args))"
proof -
  have "ArrayMessage_generate_size args 0 = sum_list (map (\<lambda>a. length a + 1) args)"
    using size by (subst ArrayMessage_generate_size_eq) simp_all
  with size out show ?thesis
    by (simp add: ArrayMessage_generate_def Uint16Message_generate_eq del: be_bytes.simps)
qed

lemma ScalarMessage_decode:
  fixes body :: "byte list"
  assumes len: "length body \<le> 4294967295"
    and mx: "\<not> (0 < mx \<and> mx < of_nat (length body))"
    and s: "concat chunks = be_bytes 4 (of_nat (length body) :: 32 word) @ body @ extra"
  shows "\<exists>m. ScalarMessage_feed_chunks h (ScalarMessage_init mx v0 e0) 0 chunks
              = Some (4 + length body, m) \<and>
            ScalarMessage.state m = DONE \<and>
            ScalarMessage_value_bytes chunks m = body"
proof -
  let ?v = "of_nat (length body) :: 32 word"
  let ?hdr = "be_bytes 4 ?v"
  have uv: "unat ?v = length body"
    using len by (simp add: unat_of_nat)
  have t4: "take 4 (concat chunks) = ?hdr" by (simp add: s)
  have v: "(word_of_be (take 4 (concat chunks)) :: 32 word) = ?v"
    unfolding t4 by (rule word_of_be_bytes_32)
  have ls: "length (concat chunks) = 4 + length body + length extra" by (simp add: s)
  have L: "scalar_len mx (concat chunks) = 4 + length body"
    unfolding scalar_len_def Let_def v uv using ls mx by auto
  define p where "p = take (4 + length body) (concat chunks)"
  have p: "p = ?hdr @ body" by (simp add: p_def s)
  from ScalarMessage_run [of h mx v0 e0 chunks]
  obtain m where run: "ScalarMessage_feed_chunks h (ScalarMessage_init mx v0 e0) 0 chunks
        = Some (4 + length body, m)"
    and inv: "scalar_inv h (chunk_memory chunks []) m p"
    and mxm: "ScalarMessage.maxSize m = mx"
    unfolding L p_def by auto
  have tp: "take 4 p = ?hdr" and dp: "drop 4 p = body" and lp: "length p = 4 + length body"
    by (simp_all add: p)
  have vp: "(word_of_be (take 4 p) :: 32 word) = ?v"
    unfolding tp by (rule word_of_be_bytes_32)
  have "4 \<le> length p" using lp by simp
  moreover have "\<not> (0 < ScalarMessage.maxSize m \<and> ScalarMessage.maxSize m < word_of_be (take 4 p))"
    using mx by (simp add: mxm vp)
  moreover have "\<not> length p < 4 + unat (word_of_be (take 4 p) :: 32 word)"
    by (simp add: vp uv lp)
  ultimately have "ScalarMessage.state m = DONE"
    and "StaticString_bytes ((chunk_memory chunks [])(OwnBuffer := ScalarMessage.buffer m))
           (ScalarMessage.result m) = drop 4 p"
    by (rule scalar_inv_done [OF inv])+
  then have "ScalarMessage.state m = DONE" and "ScalarMessage_value_bytes chunks m = body"
    by (simp_all add: ScalarMessage_value_bytes_def ScalarMessage_value_def chunk_memory_upd dp)
  with run show ?thesis by blast
qed

section \<open>The state after a run, and the ceiling\<close>

lemma ArrayMessage_run_state:
  fixes chunks :: "byte list list"
  defines "s \<equiv> concat chunks"
  defines "v \<equiv> word_of_be (take 2 s) :: 16 word"
  shows "\<exists>m. ArrayMessage_feed_chunks h (ArrayMessage_setMaxSize (ArrayMessage_init v0 e0) mx) 0 chunks
              = Some (array_len mx s, m) \<and>
            (if length s < 2 then ArrayMessage.state m = READING_HEADER
             else if 0 < mx \<and> mx < v then
               ArrayMessage.state m = ERROR \<and> ArrayMessage.error m = TOO_LARGE \<and>
               ArrayMessage.buffer m = [] \<and> ArrayMessage.result m = []
             else if length s < 2 + unat v then ArrayMessage.state m = READING_BODY
             else ArrayMessage.state m = DONE)"
proof -
  define p where "p = take (array_len mx s) s"
  from ArrayMessage_run [of h v0 e0 mx chunks]
  obtain m where run: "ArrayMessage_feed_chunks h (ArrayMessage_setMaxSize (ArrayMessage_init v0 e0) mx) 0 chunks
              = Some (array_len mx s, m)"
    and inv: "array_inv h (chunk_memory chunks []) m p" and mx: "ArrayMessage.maxSize m = mx"
    unfolding s_def p_def by blast
  have lp: "length p = array_len mx s"
    using array_len_le [of mx s] by (simp add: p_def)
  have st: "if length s < 2 then ArrayMessage.state m = READING_HEADER
             else if 0 < mx \<and> mx < v then
               ArrayMessage.state m = ERROR \<and> ArrayMessage.error m = TOO_LARGE \<and>
               ArrayMessage.buffer m = [] \<and> ArrayMessage.result m = []
             else if length s < 2 + unat v then ArrayMessage.state m = READING_BODY
             else ArrayMessage.state m = DONE"
  proof (cases "length s < 2")
    case True
    then have "length p < 2" using lp by (simp add: array_len_def)
    from array_inv_short(1) [OF inv this] True show ?thesis by simp
  next
    case False
    then have l2: "2 \<le> array_len mx s"
      by (simp add: array_len_def Let_def)
    then have p2: "2 \<le> length p" and tp: "take 2 p = take 2 s"
      using lp by (simp_all add: p_def)
    have vp: "(word_of_be (take 2 p) :: 16 word) = v" by (simp add: tp v_def)
    show ?thesis
    proof (cases "0 < mx \<and> mx < v")
      case True
      with array_inv_error [OF inv p2] False show ?thesis
        by (simp add: mx vp)
    next
      case nb: False
      then have n': "\<not> (0 < ArrayMessage.maxSize m \<and> ArrayMessage.maxSize m < word_of_be (take 2 p))"
        by (simp add: mx vp)
      have L: "array_len mx s = min (length s) (2 + unat v)"
        using False nb by (auto simp add: array_len_def Let_def v_def)
      show ?thesis
      proof (cases "length s < 2 + unat v")
        case True
        then have "length p < 2 + unat (word_of_be (take 2 p) :: 16 word)"
          by (simp add: lp L vp)
        from array_inv_body(1) [OF inv p2 n' this] False nb True show ?thesis by simp
      next
        case F: False
        then have "\<not> length p < 2 + unat (word_of_be (take 2 p) :: 16 word)"
          by (simp add: lp L vp)
        from array_inv_done(1) [OF inv p2 n' this] False nb F show ?thesis by simp
      qed
    qed
  qed
  with run show ?thesis by blast
qed

lemma ScalarMessage_run_state:
  fixes chunks :: "byte list list"
  defines "s \<equiv> concat chunks"
  defines "v \<equiv> word_of_be (take 4 s) :: 32 word"
  shows "\<exists>m. ScalarMessage_feed_chunks h (ScalarMessage_init mx v0 e0) 0 chunks
              = Some (scalar_len mx s, m) \<and>
            (if length s < 4 then ScalarMessage.state m = READING_HEADER
             else if 0 < mx \<and> mx < v then
               ScalarMessage.state m = ERROR \<and> ScalarMessage.error m = TOO_LARGE \<and>
               ScalarMessage.buffer m = []
             else if length s < 4 + unat v then ScalarMessage.state m = READING_BODY
             else ScalarMessage.state m = DONE)"
proof -
  define p where "p = take (scalar_len mx s) s"
  from ScalarMessage_run [of h mx v0 e0 chunks]
  obtain m where run: "ScalarMessage_feed_chunks h (ScalarMessage_init mx v0 e0) 0 chunks
              = Some (scalar_len mx s, m)"
    and inv: "scalar_inv h (chunk_memory chunks []) m p" and mx: "ScalarMessage.maxSize m = mx"
    unfolding s_def p_def by blast
  have lp: "length p = scalar_len mx s"
    using scalar_len_le [of mx s] by (simp add: p_def)
  have st: "if length s < 4 then ScalarMessage.state m = READING_HEADER
             else if 0 < mx \<and> mx < v then
               ScalarMessage.state m = ERROR \<and> ScalarMessage.error m = TOO_LARGE \<and>
               ScalarMessage.buffer m = []
             else if length s < 4 + unat v then ScalarMessage.state m = READING_BODY
             else ScalarMessage.state m = DONE"
  proof (cases "length s < 4")
    case True
    then have "length p < 4" using lp by (simp add: scalar_len_def)
    from scalar_inv_short(1) [OF inv this] True show ?thesis by simp
  next
    case False
    then have l2: "4 \<le> scalar_len mx s"
      by (simp add: scalar_len_def Let_def)
    then have p2: "4 \<le> length p" and tp: "take 4 p = take 4 s"
      using lp by (simp_all add: p_def)
    have vp: "(word_of_be (take 4 p) :: 32 word) = v" by (simp add: tp v_def)
    show ?thesis
    proof (cases "0 < mx \<and> mx < v")
      case True
      with scalar_inv_error [OF inv p2] False show ?thesis
        by (simp add: mx vp)
    next
      case nb: False
      then have n': "\<not> (0 < ScalarMessage.maxSize m \<and> ScalarMessage.maxSize m < word_of_be (take 4 p))"
        by (simp add: mx vp)
      have L: "scalar_len mx s = min (length s) (4 + unat v)"
        using False nb by (auto simp add: scalar_len_def Let_def v_def)
      show ?thesis
      proof (cases "length s < 4 + unat v")
        case True
        then have "length p < 4 + unat (word_of_be (take 4 p) :: 32 word)"
          by (simp add: lp L vp)
        from scalar_inv_body(1) [OF inv p2 n' this] False nb True show ?thesis by simp
      next
        case F: False
        then have "\<not> length p < 4 + unat (word_of_be (take 4 p) :: 32 word)"
          by (simp add: lp L vp)
        from scalar_inv_done(1) [OF inv p2 n' this] False nb F show ?thesis by simp
      qed
    qed
  qed
  with run show ?thesis by blast
qed

lemma take_be_bytes_length:
  "take n s = be_bytes n (w :: 'a::len word) \<Longrightarrow> n \<le> length s"
  by (metis length_be_bytes length_take min.cobounded1)

lemma word_less_succ: "unat (w :: 'a::len word) + 1 < 2 ^ LENGTH('a) \<Longrightarrow> w < w + 1"
  by (simp add: word_less_nat_alt unat_word_ariths)

lemma ArrayMessage_ceiling:
  fixes chunks :: "byte list list"
  assumes mx: "0 < mx"
  defines "s \<equiv> concat chunks"
  shows "\<exists>n m. ArrayMessage_feed_chunks h (ArrayMessage_setMaxSize (ArrayMessage_init v0 e0) mx) 0 chunks
                = Some (n, m) \<and>
           (ArrayMessage_hasError m \<longleftrightarrow> 2 \<le> length s \<and> mx < word_of_be (take 2 s)) \<and>
           (ArrayMessage_hasError m \<longrightarrow>
              ArrayMessage_errorCode m = TOO_LARGE \<and> n = 2 \<and>
              ArrayMessage.buffer m = [] \<and> ArrayMessage_value m = []) \<and>
           (take 2 s = be_bytes 2 mx \<longrightarrow>
              \<not> ArrayMessage_hasError m \<and> n = min (length s) (2 + unat mx) \<and>
              ArrayMessage.state m = (if length s < 2 + unat mx then READING_BODY else DONE)) \<and>
           (unat mx + 1 < 2 ^ 16 \<and> take 2 s = be_bytes 2 (mx + 1) \<longrightarrow> ArrayMessage_hasError m)"
proof -
  define v :: "16 word" where "v = word_of_be (take 2 s)"
  from ArrayMessage_run_state [of h v0 e0 mx chunks]
  obtain m where run: "ArrayMessage_feed_chunks h (ArrayMessage_setMaxSize (ArrayMessage_init v0 e0) mx) 0 chunks
              = Some (array_len mx s, m)"
    and st: "if length s < 2 then ArrayMessage.state m = READING_HEADER
             else if 0 < mx \<and> mx < v then
               ArrayMessage.state m = ERROR \<and> ArrayMessage.error m = TOO_LARGE \<and>
               ArrayMessage.buffer m = [] \<and> ArrayMessage.result m = []
             else if length s < 2 + unat v then ArrayMessage.state m = READING_BODY
             else ArrayMessage.state m = DONE"
    unfolding s_def v_def by blast
  have 1: "ArrayMessage_hasError m \<longleftrightarrow> 2 \<le> length s \<and> mx < v"
    using st mx by (auto simp add: ArrayMessage_hasError_def split: if_splits)
  have 2: "ArrayMessage_hasError m \<longrightarrow>
              ArrayMessage_errorCode m = TOO_LARGE \<and> array_len mx s = 2 \<and>
              ArrayMessage.buffer m = [] \<and> ArrayMessage_value m = []"
    using st mx
    by (auto simp add: ArrayMessage_hasError_def ArrayMessage_errorCode_def ArrayMessage_value_def
        array_len_def Let_def v_def split: if_splits)
  have 3: "\<not> ArrayMessage_hasError m \<and> array_len mx s = min (length s) (2 + unat mx) \<and>
              ArrayMessage.state m = (if length s < 2 + unat mx then READING_BODY else DONE)"
    if eq: "take 2 s = be_bytes 2 mx"
  proof -
    have l: "2 \<le> length s" by (rule take_be_bytes_length [OF eq])
    have "v = mx" unfolding v_def eq by (rule word_of_be_bytes_16)
    with st l mx show ?thesis
      by (auto simp add: ArrayMessage_hasError_def array_len_def Let_def v_def [symmetric])
  qed
  have 4: "ArrayMessage_hasError m"
    if "unat mx + 1 < 2 ^ 16 \<and> take 2 s = be_bytes 2 (mx + 1)"
  proof -
    from that have eq: "take 2 s = be_bytes 2 (mx + 1)" and "unat mx + 1 < 2 ^ LENGTH(16)"
      by simp_all
    then have lt: "mx < mx + 1" by (intro word_less_succ)
    have l: "2 \<le> length s" by (rule take_be_bytes_length [OF eq])
    have "v = mx + 1" unfolding v_def eq by (rule word_of_be_bytes_16)
    with 1 l lt show ?thesis by simp
  qed
  from run 1 2 3 4 show ?thesis
    unfolding v_def by blast
qed

lemma ScalarMessage_ceiling:
  fixes chunks :: "byte list list"
  assumes mx: "0 < mx"
  defines "s \<equiv> concat chunks"
  shows "\<exists>n m. ScalarMessage_feed_chunks h (ScalarMessage_setMaxSize (ScalarMessage_init mx0 v0 e0) mx) 0 chunks
                = Some (n, m) \<and>
           (ScalarMessage_hasError m \<longleftrightarrow> 4 \<le> length s \<and> mx < word_of_be (take 4 s)) \<and>
           (ScalarMessage_hasError m \<longrightarrow>
              ScalarMessage_errorCode m = TOO_LARGE \<and> n = 4 \<and> ScalarMessage.buffer m = []) \<and>
           (take 4 s = be_bytes 4 mx \<longrightarrow>
              \<not> ScalarMessage_hasError m \<and> n = min (length s) (4 + unat mx) \<and>
              ScalarMessage.state m = (if length s < 4 + unat mx then READING_BODY else DONE)) \<and>
           (unat mx + 1 < 2 ^ 32 \<and> take 4 s = be_bytes 4 (mx + 1) \<longrightarrow> ScalarMessage_hasError m)"
proof -
  define v :: "32 word" where "v = word_of_be (take 4 s)"
  from ScalarMessage_run_state [of h mx v0 e0 chunks]
  obtain m where run: "ScalarMessage_feed_chunks h (ScalarMessage_setMaxSize (ScalarMessage_init mx0 v0 e0) mx) 0 chunks
              = Some (scalar_len mx s, m)"
    and st: "if length s < 4 then ScalarMessage.state m = READING_HEADER
             else if 0 < mx \<and> mx < v then
               ScalarMessage.state m = ERROR \<and> ScalarMessage.error m = TOO_LARGE \<and>
               ScalarMessage.buffer m = []
             else if length s < 4 + unat v then ScalarMessage.state m = READING_BODY
             else ScalarMessage.state m = DONE"
    unfolding s_def v_def ScalarMessage_setMaxSize_init by blast
  have 1: "ScalarMessage_hasError m \<longleftrightarrow> 4 \<le> length s \<and> mx < v"
    using st mx by (auto simp add: ScalarMessage_hasError_def split: if_splits)
  have 2: "ScalarMessage_hasError m \<longrightarrow>
              ScalarMessage_errorCode m = TOO_LARGE \<and> scalar_len mx s = 4 \<and>
              ScalarMessage.buffer m = []"
    using st mx
    by (auto simp add: ScalarMessage_hasError_def ScalarMessage_errorCode_def
        scalar_len_def Let_def v_def split: if_splits)
  have 3: "\<not> ScalarMessage_hasError m \<and> scalar_len mx s = min (length s) (4 + unat mx) \<and>
              ScalarMessage.state m = (if length s < 4 + unat mx then READING_BODY else DONE)"
    if eq: "take 4 s = be_bytes 4 mx"
  proof -
    have l: "4 \<le> length s" by (rule take_be_bytes_length [OF eq])
    have "v = mx" unfolding v_def eq by (rule word_of_be_bytes_32)
    with st l mx show ?thesis
      by (auto simp add: ScalarMessage_hasError_def scalar_len_def Let_def v_def [symmetric])
  qed
  have 4: "ScalarMessage_hasError m"
    if "unat mx + 1 < 2 ^ 32 \<and> take 4 s = be_bytes 4 (mx + 1)"
  proof -
    from that have eq: "take 4 s = be_bytes 4 (mx + 1)" and "unat mx + 1 < 2 ^ LENGTH(32)"
      by simp_all
    then have lt: "mx < mx + 1" by (intro word_less_succ)
    have l: "4 \<le> length s" by (rule take_be_bytes_length [OF eq])
    have "v = mx + 1" unfolding v_def eq by (rule word_of_be_bytes_32)
    with 1 l lt show ?thesis by simp
  qed
  from run 1 2 3 4 show ?thesis
    unfolding v_def by blast
qed

section \<open>The loop of feed, phase by phase\<close>

lemma Uint32Message_feed_facts:
  assumes "Uint32Message_feed h m d = (n, hr)"
  shows "n = min (length d) (4 - Uint32Message.consumed m)"
    "Uint32Message.consumed hr = Uint32Message.consumed m + n"
    "n = 0 \<Longrightarrow> hr = m"
  using assms by (auto simp add: Uint32Message_feed_eq Let_def)

lemma ScalarMessage_feed_loop_stop:
  "\<not> c < length bytes \<or> ScalarMessage_done m \<Longrightarrow>
   ScalarMessage_feed_loop h m data bytes c = Some (c, m)"
  by (subst ScalarMessage_feed_loop.simps) auto

lemma ScalarMessage_feed_loop_step:
  assumes "c < length bytes" and "\<not> ScalarMessage_done m"
    and "ScalarMessage_feed_body h m data bytes c = Some (m1, c1)"
  shows "ScalarMessage_feed_loop h m data bytes c = ScalarMessage_feed_loop h m1 data bytes c1"
  by (subst ScalarMessage_feed_loop.simps) (simp add: assms)

lemma ScalarMessage_feed_loop_zero_copy:
  assumes st: "ScalarMessage.state m = READING_BODY"
    and buf: "ScalarMessage.buffer m = []"
    and v: "v = unat (Uint32Message_value (ScalarMessage.headerReader m))"
    and pos: "0 < v" and le: "v \<le> length bytes - c"
  shows "ScalarMessage_feed_loop h m data bytes c =
           Some (c + v, m\<lparr>ScalarMessage.result := \<lparr>content = ptr_add data c, len = v\<rparr>,
                           ScalarMessage.state := DONE\<rparr>)"
proof -
  let ?m' = "m\<lparr>ScalarMessage.result := \<lparr>content = ptr_add data c, len = v\<rparr>,
               ScalarMessage.state := DONE\<rparr>"
  have c: "c < length bytes" using pos le by simp
  have nd: "\<not> ScalarMessage_done m" by (simp add: ScalarMessage_done_def st)
  have body: "ScalarMessage_feed_body h m data bytes c = Some (?m', c + v)"
    using st buf le by (simp add: ScalarMessage_feed_body_def Let_def v)
  have "ScalarMessage_done ?m'" by (simp add: ScalarMessage_done_def)
  then have "ScalarMessage_feed_loop h ?m' data bytes (c + v) = Some (c + v, ?m')"
    by (intro ScalarMessage_feed_loop_stop) simp
  with ScalarMessage_feed_loop_step [OF c nd body] show ?thesis by simp
qed

lemma ScalarMessage_feed_body_buffered:
  fixes m :: ScalarMessage and bytes :: "byte list" and c :: nat
  defines "v \<equiv> unat (Uint32Message_value (ScalarMessage.headerReader m))"
  defines "k \<equiv> min (length bytes - c) (v - length (ScalarMessage.buffer m))"
  defines "b \<equiv> ScalarMessage.buffer m @ take k (drop c bytes)"
  assumes st: "ScalarMessage.state m = READING_BODY"
    and no: "\<not> (ScalarMessage.buffer m = [] \<and> v \<le> length bytes - c)"
  shows "ScalarMessage_feed_body h m data bytes c =
           Some (if length b = v then
                   m\<lparr>ScalarMessage.buffer := b,
                     ScalarMessage.result := \<lparr>content = (OwnBuffer, 0), len = length b\<rparr>,
                     ScalarMessage.state := DONE\<rparr>
                 else m\<lparr>ScalarMessage.buffer := b\<rparr>, c + k)"
proof -
  have cond: "(ScalarMessage.buffer m = [] \<and>
      unat (Uint32Message_value (ScalarMessage.headerReader m)) \<le> length bytes - c) = False"
    using no by (simp add: v_def)
  show ?thesis
    unfolding ScalarMessage_feed_body_def Let_def
    by (simp add: st cond) (simp add: v_def k_def b_def)
qed

lemma ScalarMessage_feed_loop_buffered:
  fixes m :: ScalarMessage and bytes :: "byte list" and c :: nat
  defines "v \<equiv> unat (Uint32Message_value (ScalarMessage.headerReader m))"
  defines "k \<equiv> min (length bytes - c) (v - length (ScalarMessage.buffer m))"
  defines "b \<equiv> ScalarMessage.buffer m @ take k (drop c bytes)"
  assumes st: "ScalarMessage.state m = READING_BODY"
    and no: "\<not> (ScalarMessage.buffer m = [] \<and> v \<le> length bytes - c)"
    and lt: "length (ScalarMessage.buffer m) < v" and cle: "c \<le> length bytes"
  shows "ScalarMessage_feed_loop h m data bytes c =
           Some (c + k,
             if length b = v then
               m\<lparr>ScalarMessage.buffer := b,
                 ScalarMessage.result := \<lparr>content = (OwnBuffer, 0), len = length b\<rparr>,
                 ScalarMessage.state := DONE\<rparr>
             else m\<lparr>ScalarMessage.buffer := b\<rparr>)"
proof (cases "c < length bytes")
  case False
  then have "k = 0" using cle by (simp add: k_def)
  then have "b = ScalarMessage.buffer m" by (simp add: b_def)
  with False lt \<open>k = 0\<close> show ?thesis
    by (simp add: ScalarMessage_feed_loop_stop)
next
  case True
  have nd: "\<not> ScalarMessage_done m" by (simp add: ScalarMessage_done_def st)
  have lb: "length b = length (ScalarMessage.buffer m) + k"
    using True by (simp add: b_def k_def)
  define m' where "m' = (if length b = v then
               m\<lparr>ScalarMessage.buffer := b,
                 ScalarMessage.result := \<lparr>content = (OwnBuffer, 0), len = length b\<rparr>,
                 ScalarMessage.state := DONE\<rparr>
             else m\<lparr>ScalarMessage.buffer := b\<rparr>)"
  have body: "ScalarMessage_feed_body h m data bytes c = Some (m', c + k)"
    using ScalarMessage_feed_body_buffered [OF st no [unfolded v_def], of h data]
    by (simp add: m'_def v_def k_def b_def)
  have "\<not> c + k < length bytes \<or> ScalarMessage_done m'"
  proof (cases "length b = v")
    case True
    then show ?thesis by (simp add: m'_def ScalarMessage_done_def)
  next
    case False
    have "k = length bytes - c"
    proof (rule ccontr)
      assume "k \<noteq> length bytes - c"
      then have "k = v - length (ScalarMessage.buffer m)" by (simp add: k_def min_def split: if_splits)
      with lb lt have "length b = v" by simp
      with False show False by simp
    qed
    then show ?thesis using True by simp
  qed
  then have "ScalarMessage_feed_loop h m' data bytes (c + k) = Some (c + k, m')"
    by (rule ScalarMessage_feed_loop_stop)
  with ScalarMessage_feed_loop_step [OF True nd body] show ?thesis
    by (simp add: m'_def)
qed

lemma ScalarMessage_feed_loop_body:
  fixes m :: ScalarMessage
  defines "v \<equiv> unat (Uint32Message_value (ScalarMessage.headerReader m))"
  assumes st: "ScalarMessage.state m = READING_BODY"
    and hd: "Uint32Message.consumed (ScalarMessage.headerReader m) = 4"
    and lt: "length (ScalarMessage.buffer m) < v" and cle: "c \<le> length bytes"
  shows "\<exists>k m'. ScalarMessage_feed_loop h m data bytes c = Some (c + k, m') \<and>
           k \<le> length bytes - c \<and> k \<le> v - length (ScalarMessage.buffer m) \<and>
           ScalarMessage_wf m' \<and>
           ScalarMessage.headerReader m' = ScalarMessage.headerReader m \<and>
           (\<not> ScalarMessage_done m' \<longrightarrow> c + k = length bytes) \<and>
           (ScalarMessage.state m' = DONE \<or> ScalarMessage.state m' = READING_BODY)"
proof (cases "ScalarMessage.buffer m = [] \<and> v \<le> length bytes - c")
  case True
  then have pos: "0 < v" using lt by simp
  define m' where "m' = m\<lparr>ScalarMessage.result := \<lparr>content = ptr_add data c, len = v\<rparr>,
                           ScalarMessage.state := DONE\<rparr>"
  from ScalarMessage_feed_loop_zero_copy [OF st _ v_def [THEN meta_eq_to_obj_eq] pos, of bytes c h data] True
  have loop: "ScalarMessage_feed_loop h m data bytes c = Some (c + v, m')"
    by (simp add: m'_def)
  have wf: "ScalarMessage_wf m'"
    by (simp add: ScalarMessage_wf_def m'_def)
  have hr: "ScalarMessage.headerReader m' = ScalarMessage.headerReader m"
    and dn: "ScalarMessage_done m'" and stm: "ScalarMessage.state m' = DONE"
    by (simp_all add: m'_def ScalarMessage_done_def)
  have kb: "v \<le> length bytes - c" and kv: "v \<le> v - length (ScalarMessage.buffer m)"
    using True by simp_all
  from loop kb kv wf hr dn stm show ?thesis by blast
next
  case False
  define k where "k = min (length bytes - c) (v - length (ScalarMessage.buffer m))"
  define b where "b = ScalarMessage.buffer m @ take k (drop c bytes)"
  define m' where "m' = (if length b = v then
               m\<lparr>ScalarMessage.buffer := b,
                 ScalarMessage.result := \<lparr>content = (OwnBuffer, 0), len = length b\<rparr>,
                 ScalarMessage.state := DONE\<rparr>
             else m\<lparr>ScalarMessage.buffer := b\<rparr>)"
  from ScalarMessage_feed_loop_buffered [OF st False [unfolded v_def] lt [unfolded v_def] cle, of h data]
  have loop: "ScalarMessage_feed_loop h m data bytes c = Some (c + k, m')"
    by (simp add: m'_def v_def k_def b_def)
  have lb: "length b = length (ScalarMessage.buffer m) + k"
    using cle by (simp add: b_def k_def)
  have kv: "k \<le> v - length (ScalarMessage.buffer m)" and kb: "k \<le> length bytes - c"
    by (simp_all add: k_def)
  have wf: "ScalarMessage_wf m'"
    using lb kv lt hd st by (auto simp add: m'_def ScalarMessage_wf_def v_def)
  have hr: "ScalarMessage.headerReader m' = ScalarMessage.headerReader m"
    by (simp add: m'_def)
  have stm: "ScalarMessage.state m' = DONE \<or> ScalarMessage.state m' = READING_BODY"
    by (simp add: m'_def st)
  have fin: "\<not> ScalarMessage_done m' \<longrightarrow> c + k = length bytes"
  proof
    assume "\<not> ScalarMessage_done m'"
    then have nf: "length b \<noteq> v" by (auto simp add: m'_def ScalarMessage_done_def split: if_splits)
    have "k = length bytes - c"
    proof (rule ccontr)
      assume "k \<noteq> length bytes - c"
      then have "k = v - length (ScalarMessage.buffer m)" by (simp add: k_def min_def split: if_splits)
      with lb lt have "length b = v" by simp
      with nf show False by simp
    qed
    with cle show "c + k = length bytes" by simp
  qed
  from loop kb kv wf hr fin stm show ?thesis by blast
qed

lemma ScalarMessage_feed_loop_header:
  fixes m :: ScalarMessage
  assumes st: "ScalarMessage.state m = READING_HEADER"
    and lt: "Uint32Message.consumed (ScalarMessage.headerReader m) < 4"
    and c: "c < length bytes"
    and feed: "Uint32Message_feed h (ScalarMessage.headerReader m) (drop c bytes) = (n, hr)"
  defines "m1 \<equiv> m\<lparr>ScalarMessage.headerReader := hr\<rparr>"
  shows "ScalarMessage_feed_loop h m data bytes c =
           (if \<not> Uint32Message_done hr then Some (c + n, m1)
            else if 0 < ScalarMessage.maxSize m \<and> ScalarMessage.maxSize m < Uint32Message_value hr
              then Some (c + n, m1\<lparr>ScalarMessage.state := ERROR, ScalarMessage.error := TOO_LARGE\<rparr>)
            else if Uint32Message_value hr = 0 then Some (c + n, m1\<lparr>ScalarMessage.state := DONE\<rparr>)
            else ScalarMessage_feed_loop h (m1\<lparr>ScalarMessage.state := READING_BODY\<rparr>) data bytes (c + n))"
    and "n = min (length bytes - c) (4 - Uint32Message.consumed (ScalarMessage.headerReader m))"
    and "Uint32Message.consumed hr = Uint32Message.consumed (ScalarMessage.headerReader m) + n"
proof -
  note F = Uint32Message_feed_facts [OF feed]
  show n: "n = min (length bytes - c) (4 - Uint32Message.consumed (ScalarMessage.headerReader m))"
    using F(1) by simp
  show hc: "Uint32Message.consumed hr = Uint32Message.consumed (ScalarMessage.headerReader m) + n"
    by (rule F(2))
  have nd: "\<not> ScalarMessage_done m" by (simp add: ScalarMessage_done_def st)
  define r where "r =
     (if Uint32Message_done hr then
        if ScalarMessage.maxSize m > 0 \<and> Uint32Message_value hr > ScalarMessage.maxSize m then
          (m1\<lparr>ScalarMessage.state := ERROR, ScalarMessage.error := TOO_LARGE\<rparr>, c + n)
        else if Uint32Message_value hr = 0 then (m1\<lparr>ScalarMessage.state := DONE\<rparr>, c + n)
        else (m1\<lparr>ScalarMessage.state := READING_BODY\<rparr>, c + n)
      else (m1, c + n))"
  have body: "ScalarMessage_feed_body h m data bytes c = Some (fst r, snd r)"
    unfolding ScalarMessage_feed_body_def Let_def
    by (simp add: st feed r_def m1_def)
  have step: "ScalarMessage_feed_loop h m data bytes c = ScalarMessage_feed_loop h (fst r) data bytes (snd r)"
    by (rule ScalarMessage_feed_loop_step [OF c nd body])
  show "ScalarMessage_feed_loop h m data bytes c =
           (if \<not> Uint32Message_done hr then Some (c + n, m1)
            else if 0 < ScalarMessage.maxSize m \<and> ScalarMessage.maxSize m < Uint32Message_value hr
              then Some (c + n, m1\<lparr>ScalarMessage.state := ERROR, ScalarMessage.error := TOO_LARGE\<rparr>)
            else if Uint32Message_value hr = 0 then Some (c + n, m1\<lparr>ScalarMessage.state := DONE\<rparr>)
            else ScalarMessage_feed_loop h (m1\<lparr>ScalarMessage.state := READING_BODY\<rparr>) data bytes (c + n))"
  proof (cases "Uint32Message_done hr")
    case False
    then have "n < 4 - Uint32Message.consumed (ScalarMessage.headerReader m)"
      using hc lt n by (auto simp add: Uint32Message_done_def min_def split: if_splits)
    then have "n = length bytes - c" using n by simp
    then have "\<not> c + n < length bytes" using c by simp
    then have "ScalarMessage_feed_loop h m1 data bytes (c + n) = Some (c + n, m1)"
      by (intro ScalarMessage_feed_loop_stop) simp
    with step False show ?thesis by (simp add: r_def)
  next
    case True
    consider (err) "0 < ScalarMessage.maxSize m \<and> ScalarMessage.maxSize m < Uint32Message_value hr"
      | (zero) "\<not> (0 < ScalarMessage.maxSize m \<and> ScalarMessage.maxSize m < Uint32Message_value hr)"
          "Uint32Message_value hr = 0"
      | (body) "\<not> (0 < ScalarMessage.maxSize m \<and> ScalarMessage.maxSize m < Uint32Message_value hr)"
          "Uint32Message_value hr \<noteq> 0"
      by blast
    then show ?thesis
    proof cases
      case err
      have "ScalarMessage_done (m1\<lparr>ScalarMessage.state := ERROR, ScalarMessage.error := TOO_LARGE\<rparr>)"
        by (simp add: ScalarMessage_done_def)
      then have "ScalarMessage_feed_loop h (m1\<lparr>ScalarMessage.state := ERROR, ScalarMessage.error := TOO_LARGE\<rparr>)
          data bytes (c + n)
          = Some (c + n, m1\<lparr>ScalarMessage.state := ERROR, ScalarMessage.error := TOO_LARGE\<rparr>)"
        by (intro ScalarMessage_feed_loop_stop) simp
      with step True err show ?thesis by (simp add: r_def)
    next
      case zero
      have "ScalarMessage_done (m1\<lparr>ScalarMessage.state := DONE\<rparr>)"
        by (simp add: ScalarMessage_done_def)
      then have "ScalarMessage_feed_loop h (m1\<lparr>ScalarMessage.state := DONE\<rparr>) data bytes (c + n)
          = Some (c + n, m1\<lparr>ScalarMessage.state := DONE\<rparr>)"
        by (intro ScalarMessage_feed_loop_stop) simp
      with step True zero show ?thesis
        by (auto simp add: r_def)
    next
      case body
      with step True show ?thesis by (auto simp add: r_def)
    qed
  qed
qed

lemma ScalarMessage_feed_consumes:
  assumes wf: "ScalarMessage_wf m"
  shows "\<exists>n m'. ScalarMessage_feed h m data bytes = Some (n, m') \<and> ScalarMessage_wf m' \<and>
           n \<le> length bytes \<and>
           (\<not> ScalarMessage_done m' \<longrightarrow> n = length bytes) \<and>
           (ScalarMessage.state m = READING_BODY \<longrightarrow>
              n \<le> unat (Uint32Message_value (ScalarMessage.headerReader m))
                    - length (ScalarMessage.buffer m)) \<and>
           (ScalarMessage.state m = READING_HEADER \<longrightarrow>
              n \<le> (4 - Uint32Message.consumed (ScalarMessage.headerReader m))
                    + (if ScalarMessage.state m' = READING_BODY \<or> ScalarMessage.state m' = DONE
                       then unat (Uint32Message_value (ScalarMessage.headerReader m')) else 0)) \<and>
           (ScalarMessage_done m \<longrightarrow> n = 0 \<and> m' = m)"
proof (cases "ScalarMessage.state m")
  case DONE
  then have "ScalarMessage_done m" by (simp add: ScalarMessage_done_def)
  then have "ScalarMessage_feed h m data bytes = Some (0, m)"
    by (simp add: ScalarMessage_feed_def ScalarMessage_feed_loop_stop)
  with wf DONE show ?thesis by (simp add: ScalarMessage_done_def)
next
  case ERROR
  then have "ScalarMessage_done m" by (simp add: ScalarMessage_done_def)
  then have "ScalarMessage_feed h m data bytes = Some (0, m)"
    by (simp add: ScalarMessage_feed_def ScalarMessage_feed_loop_stop)
  with wf ERROR show ?thesis by (simp add: ScalarMessage_done_def)
next
  case READING_BODY
  with wf have hd: "Uint32Message.consumed (ScalarMessage.headerReader m) = 4"
    and lt: "length (ScalarMessage.buffer m)
          < unat (Uint32Message_value (ScalarMessage.headerReader m))"
    by (simp_all add: ScalarMessage_wf_def)
  from ScalarMessage_feed_loop_body [OF READING_BODY hd lt, of 0 bytes h data]
  obtain k m' where "ScalarMessage_feed_loop h m data bytes 0 = Some (k, m')"
    and "k \<le> length bytes"
    and "k \<le> unat (Uint32Message_value (ScalarMessage.headerReader m)) - length (ScalarMessage.buffer m)"
    and "ScalarMessage_wf m'" and "\<not> ScalarMessage_done m' \<longrightarrow> k = length bytes"
    by auto
  with READING_BODY show ?thesis
    by (simp add: ScalarMessage_feed_def ScalarMessage_done_def)
next
  case READING_HEADER
  with wf have lt: "Uint32Message.consumed (ScalarMessage.headerReader m) < 4"
    and buf: "ScalarMessage.buffer m = []"
    by (simp_all add: ScalarMessage_wf_def)
  have nd: "\<not> ScalarMessage_done m" by (simp add: ScalarMessage_done_def READING_HEADER)
  let ?c = "Uint32Message.consumed (ScalarMessage.headerReader m)"
  show ?thesis
  proof (cases "bytes = []")
    case True
    then have "ScalarMessage_feed h m data bytes = Some (0, m)"
      by (simp add: ScalarMessage_feed_def ScalarMessage_feed_loop_stop)
    with wf nd True show ?thesis by simp
  next
    case False
    then have c: "0 < length bytes" by simp
    obtain n hr where feed: "Uint32Message_feed h (ScalarMessage.headerReader m) (drop 0 bytes) = (n, hr)"
      by (cases "Uint32Message_feed h (ScalarMessage.headerReader m) (drop 0 bytes)")
    define m1 where "m1 = m\<lparr>ScalarMessage.headerReader := hr\<rparr>"
    note H = ScalarMessage_feed_loop_header(1) [OF READING_HEADER lt c feed, of data, folded m1_def]
    have n: "n = min (length bytes) (4 - ?c)" and hc: "Uint32Message.consumed hr = ?c + n"
      using ScalarMessage_feed_loop_header(2,3) [OF READING_HEADER lt c feed] by simp_all
    have nb: "n \<le> length bytes" and n4: "n \<le> 4 - ?c" using n by simp_all
    consider (part) "\<not> Uint32Message_done hr"
      | (err) "Uint32Message_done hr"
          "0 < ScalarMessage.maxSize m \<and> ScalarMessage.maxSize m < Uint32Message_value hr"
      | (zero) "Uint32Message_done hr"
          "\<not> (0 < ScalarMessage.maxSize m \<and> ScalarMessage.maxSize m < Uint32Message_value hr)"
          "Uint32Message_value hr = 0"
      | (body) "Uint32Message_done hr"
          "\<not> (0 < ScalarMessage.maxSize m \<and> ScalarMessage.maxSize m < Uint32Message_value hr)"
          "Uint32Message_value hr \<noteq> 0"
      by blast
    then show ?thesis
    proof cases
      case part
      then have loop: "ScalarMessage_feed h m data bytes = Some (n, m1)"
        using H by (simp add: ScalarMessage_feed_def)
      have "?c + n < 4" using part hc n4 lt by (simp add: Uint32Message_done_def)
      then have wf1: "ScalarMessage_wf m1" and all: "n = length bytes"
        using hc buf READING_HEADER n by (auto simp add: ScalarMessage_wf_def m1_def)
      have st1: "ScalarMessage.state m1 = READING_HEADER" by (simp add: m1_def READING_HEADER)
      from loop wf1 all n4 st1 nd READING_HEADER show ?thesis by simp
    next
      case err
      define m' where "m' = m1\<lparr>ScalarMessage.state := ERROR, ScalarMessage.error := TOO_LARGE\<rparr>"
      have loop: "ScalarMessage_feed h m data bytes = Some (n, m')"
        using H err by (simp add: ScalarMessage_feed_def m'_def)
      have wf1: "ScalarMessage_wf m'" and st1: "ScalarMessage.state m' = ERROR"
        by (simp_all add: ScalarMessage_wf_def m'_def)
      from loop wf1 nb n4 st1 nd READING_HEADER show ?thesis
        by (simp add: ScalarMessage_done_def)
    next
      case zero
      define m' where "m' = m1\<lparr>ScalarMessage.state := DONE\<rparr>"
      have loop: "ScalarMessage_feed h m data bytes = Some (n, m')"
        using H zero by (auto simp add: ScalarMessage_feed_def m'_def)
      have wf1: "ScalarMessage_wf m'" and st1: "ScalarMessage.state m' = DONE"
        by (simp_all add: ScalarMessage_wf_def m'_def)
      from loop wf1 nb n4 st1 nd READING_HEADER show ?thesis
        by (simp add: ScalarMessage_done_def)
    next
      case body
      define m2 where "m2 = m1\<lparr>ScalarMessage.state := READING_BODY\<rparr>"
      have loop: "ScalarMessage_feed h m data bytes = ScalarMessage_feed_loop h m2 data bytes (0 + n)"
        using H body by (auto simp add: ScalarMessage_feed_def m2_def)
      have st2: "ScalarMessage.state m2 = READING_BODY"
        and hd2: "Uint32Message.consumed (ScalarMessage.headerReader m2) = 4"
        and hr2: "ScalarMessage.headerReader m2 = hr"
        and lt2: "length (ScalarMessage.buffer m2)
            < unat (Uint32Message_value (ScalarMessage.headerReader m2))"
        using body(1,3) buf
        by (simp_all add: m2_def m1_def Uint32Message_done_def unat_gt_0)
      from ScalarMessage_feed_loop_body [OF st2 hd2 lt2, of "0 + n" bytes h data] nb
      obtain k m' where l2: "ScalarMessage_feed_loop h m2 data bytes (0 + n) = Some (0 + n + k, m')"
        and kb: "k \<le> length bytes - (0 + n)"
        and kv: "k \<le> unat (Uint32Message_value (ScalarMessage.headerReader m2)) - length (ScalarMessage.buffer m2)"
        and wf': "ScalarMessage_wf m'"
        and hr': "ScalarMessage.headerReader m' = ScalarMessage.headerReader m2"
        and fin: "\<not> ScalarMessage_done m' \<longrightarrow> 0 + n + k = length bytes"
        and stm: "ScalarMessage.state m' = DONE \<or> ScalarMessage.state m' = READING_BODY"
        by auto
      have r: "ScalarMessage_feed h m data bytes = Some (n + k, m')"
        using loop l2 by simp
      have b1: "n + k \<le> length bytes" using kb nb by simp
      have b2: "n + k \<le> (4 - ?c) + unat (Uint32Message_value (ScalarMessage.headerReader m'))"
        using kv n4 by (simp add: hr')
      from r wf' b1 b2 fin stm nd READING_HEADER show ?thesis
        by auto
    qed
  qed
qed

lemma Uint16Message_feed_facts:
  assumes "Uint16Message_feed h m d = (n, hr)"
  shows "n = min (length d) (2 - Uint16Message.consumed m)"
    "Uint16Message.consumed hr = Uint16Message.consumed m + n"
    "n = 0 \<Longrightarrow> hr = m"
  using assms by (auto simp add: Uint16Message_feed_eq Let_def)

lemma ArrayMessage_feed_loop_stop:
  "\<not> c < length bytes \<or> ArrayMessage_done m \<Longrightarrow>
   ArrayMessage_feed_loop h m data bytes c = Some (c, m)"
  by (subst ArrayMessage_feed_loop.simps) auto

lemma ArrayMessage_feed_loop_step:
  assumes "c < length bytes" and "\<not> ArrayMessage_done m"
    and "ArrayMessage_feed_body h m data bytes c = Some (m1, c1)"
  shows "ArrayMessage_feed_loop h m data bytes c = ArrayMessage_feed_loop h m1 data bytes c1"
  by (subst ArrayMessage_feed_loop.simps) (simp add: assms)

lemma ArrayMessage_feed_loop_zero_copy:
  assumes st: "ArrayMessage.state m = READING_BODY"
    and buf: "ArrayMessage.buffer m = []"
    and v: "v = unat (Uint16Message_value (ArrayMessage.headerReader m))"
    and pos: "0 < v" and le: "v \<le> length bytes - c"
  shows "ArrayMessage_feed_loop h m data bytes c =
           Some (c + v, (parseBody m (ptr_add data c) (take v (drop c bytes)))
                          \<lparr>ArrayMessage.state := DONE\<rparr>)"
proof -
  let ?m' = "(parseBody m (ptr_add data c) (take v (drop c bytes)))
               \<lparr>ArrayMessage.state := DONE\<rparr>"
  have c: "c < length bytes" using pos le by simp
  have nd: "\<not> ArrayMessage_done m" by (simp add: ArrayMessage_done_def st)
  have body: "ArrayMessage_feed_body h m data bytes c = Some (?m', c + v)"
    using st buf le by (simp add: ArrayMessage_feed_body_def Let_def v)
  have "ArrayMessage_done ?m'" by (simp add: ArrayMessage_done_def)
  then have "ArrayMessage_feed_loop h ?m' data bytes (c + v) = Some (c + v, ?m')"
    by (intro ArrayMessage_feed_loop_stop) simp
  with ArrayMessage_feed_loop_step [OF c nd body] show ?thesis by simp
qed

lemma ArrayMessage_feed_body_buffered:
  fixes m :: ArrayMessage and bytes :: "byte list" and c :: nat
  defines "v \<equiv> unat (Uint16Message_value (ArrayMessage.headerReader m))"
  defines "k \<equiv> min (length bytes - c) (v - length (ArrayMessage.buffer m))"
  defines "b \<equiv> ArrayMessage.buffer m @ take k (drop c bytes)"
  assumes st: "ArrayMessage.state m = READING_BODY"
    and no: "\<not> (ArrayMessage.buffer m = [] \<and> v \<le> length bytes - c)"
  shows "ArrayMessage_feed_body h m data bytes c =
           Some (if length b = v then
                   (parseBody (m\<lparr>ArrayMessage.buffer := b\<rparr>) (OwnBuffer, 0) b)\<lparr>ArrayMessage.state := DONE\<rparr>
                 else m\<lparr>ArrayMessage.buffer := b\<rparr>, c + k)"
proof -
  have cond: "(ArrayMessage.buffer m = [] \<and>
      unat (Uint16Message_value (ArrayMessage.headerReader m)) \<le> length bytes - c) = False"
    using no by (simp add: v_def)
  show ?thesis
    unfolding ArrayMessage_feed_body_def Let_def
    by (simp add: st cond) (simp add: v_def k_def b_def)
qed

lemma ArrayMessage_feed_loop_buffered:
  fixes m :: ArrayMessage and bytes :: "byte list" and c :: nat
  defines "v \<equiv> unat (Uint16Message_value (ArrayMessage.headerReader m))"
  defines "k \<equiv> min (length bytes - c) (v - length (ArrayMessage.buffer m))"
  defines "b \<equiv> ArrayMessage.buffer m @ take k (drop c bytes)"
  assumes st: "ArrayMessage.state m = READING_BODY"
    and no: "\<not> (ArrayMessage.buffer m = [] \<and> v \<le> length bytes - c)"
    and lt: "length (ArrayMessage.buffer m) < v" and cle: "c \<le> length bytes"
  shows "ArrayMessage_feed_loop h m data bytes c =
           Some (c + k,
             if length b = v then
               (parseBody (m\<lparr>ArrayMessage.buffer := b\<rparr>) (OwnBuffer, 0) b)\<lparr>ArrayMessage.state := DONE\<rparr>
             else m\<lparr>ArrayMessage.buffer := b\<rparr>)"
proof (cases "c < length bytes")
  case False
  then have "k = 0" using cle by (simp add: k_def)
  then have "b = ArrayMessage.buffer m" by (simp add: b_def)
  with False lt \<open>k = 0\<close> show ?thesis
    by (simp add: ArrayMessage_feed_loop_stop)
next
  case True
  have nd: "\<not> ArrayMessage_done m" by (simp add: ArrayMessage_done_def st)
  have lb: "length b = length (ArrayMessage.buffer m) + k"
    using True by (simp add: b_def k_def)
  define m' where "m' = (if length b = v then
               (parseBody (m\<lparr>ArrayMessage.buffer := b\<rparr>) (OwnBuffer, 0) b)\<lparr>ArrayMessage.state := DONE\<rparr>
             else m\<lparr>ArrayMessage.buffer := b\<rparr>)"
  have body: "ArrayMessage_feed_body h m data bytes c = Some (m', c + k)"
    using ArrayMessage_feed_body_buffered [OF st no [unfolded v_def], of h data]
    by (simp add: m'_def v_def k_def b_def)
  have "\<not> c + k < length bytes \<or> ArrayMessage_done m'"
  proof (cases "length b = v")
    case True
    then show ?thesis by (simp add: m'_def ArrayMessage_done_def)
  next
    case False
    have "k = length bytes - c"
    proof (rule ccontr)
      assume "k \<noteq> length bytes - c"
      then have "k = v - length (ArrayMessage.buffer m)" by (simp add: k_def min_def split: if_splits)
      with lb lt have "length b = v" by simp
      with False show False by simp
    qed
    then show ?thesis using True by simp
  qed
  then have "ArrayMessage_feed_loop h m' data bytes (c + k) = Some (c + k, m')"
    by (rule ArrayMessage_feed_loop_stop)
  with ArrayMessage_feed_loop_step [OF True nd body] show ?thesis
    by (simp add: m'_def)
qed

lemma ArrayMessage_feed_loop_body:
  fixes m :: ArrayMessage
  defines "v \<equiv> unat (Uint16Message_value (ArrayMessage.headerReader m))"
  assumes st: "ArrayMessage.state m = READING_BODY"
    and hd: "Uint16Message.consumed (ArrayMessage.headerReader m) = 2"
    and lt: "length (ArrayMessage.buffer m) < v" and cle: "c \<le> length bytes"
  shows "\<exists>k m'. ArrayMessage_feed_loop h m data bytes c = Some (c + k, m') \<and>
           k \<le> length bytes - c \<and> k \<le> v - length (ArrayMessage.buffer m) \<and>
           ArrayMessage_wf m' \<and>
           ArrayMessage.headerReader m' = ArrayMessage.headerReader m \<and>
           (\<not> ArrayMessage_done m' \<longrightarrow> c + k = length bytes) \<and>
           (ArrayMessage.state m' = DONE \<or> ArrayMessage.state m' = READING_BODY)"
proof (cases "ArrayMessage.buffer m = [] \<and> v \<le> length bytes - c")
  case True
  then have pos: "0 < v" using lt by simp
  define m' where "m' = (parseBody m (ptr_add data c) (take v (drop c bytes)))
                          \<lparr>ArrayMessage.state := DONE\<rparr>"
  from ArrayMessage_feed_loop_zero_copy [OF st _ v_def [THEN meta_eq_to_obj_eq] pos, of bytes c h data] True
  have loop: "ArrayMessage_feed_loop h m data bytes c = Some (c + v, m')"
    by (simp add: m'_def)
  have wf: "ArrayMessage_wf m'"
    by (simp add: ArrayMessage_wf_def m'_def)
  have hr: "ArrayMessage.headerReader m' = ArrayMessage.headerReader m"
    and dn: "ArrayMessage_done m'" and stm: "ArrayMessage.state m' = DONE"
    by (simp_all add: m'_def ArrayMessage_done_def)
  have kb: "v \<le> length bytes - c" and kv: "v \<le> v - length (ArrayMessage.buffer m)"
    using True by simp_all
  from loop kb kv wf hr dn stm show ?thesis by blast
next
  case False
  define k where "k = min (length bytes - c) (v - length (ArrayMessage.buffer m))"
  define b where "b = ArrayMessage.buffer m @ take k (drop c bytes)"
  define m' where "m' = (if length b = v then
               (parseBody (m\<lparr>ArrayMessage.buffer := b\<rparr>) (OwnBuffer, 0) b)\<lparr>ArrayMessage.state := DONE\<rparr>
             else m\<lparr>ArrayMessage.buffer := b\<rparr>)"
  from ArrayMessage_feed_loop_buffered [OF st False [unfolded v_def] lt [unfolded v_def] cle, of h data]
  have loop: "ArrayMessage_feed_loop h m data bytes c = Some (c + k, m')"
    by (simp add: m'_def v_def k_def b_def)
  have lb: "length b = length (ArrayMessage.buffer m) + k"
    using cle by (simp add: b_def k_def)
  have kv: "k \<le> v - length (ArrayMessage.buffer m)" and kb: "k \<le> length bytes - c"
    by (simp_all add: k_def)
  have wf: "ArrayMessage_wf m'"
    using lb kv lt hd st by (auto simp add: m'_def ArrayMessage_wf_def v_def)
  have hr: "ArrayMessage.headerReader m' = ArrayMessage.headerReader m"
    by (simp add: m'_def)
  have stm: "ArrayMessage.state m' = DONE \<or> ArrayMessage.state m' = READING_BODY"
    by (simp add: m'_def st)
  have fin: "\<not> ArrayMessage_done m' \<longrightarrow> c + k = length bytes"
  proof
    assume "\<not> ArrayMessage_done m'"
    then have nf: "length b \<noteq> v" by (auto simp add: m'_def ArrayMessage_done_def split: if_splits)
    have "k = length bytes - c"
    proof (rule ccontr)
      assume "k \<noteq> length bytes - c"
      then have "k = v - length (ArrayMessage.buffer m)" by (simp add: k_def min_def split: if_splits)
      with lb lt have "length b = v" by simp
      with nf show False by simp
    qed
    with cle show "c + k = length bytes" by simp
  qed
  from loop kb kv wf hr fin stm show ?thesis by blast
qed

lemma ArrayMessage_feed_loop_header:
  fixes m :: ArrayMessage
  assumes st: "ArrayMessage.state m = READING_HEADER"
    and lt: "Uint16Message.consumed (ArrayMessage.headerReader m) < 2"
    and c: "c < length bytes"
    and feed: "Uint16Message_feed h (ArrayMessage.headerReader m) (drop c bytes) = (n, hr)"
  defines "m1 \<equiv> m\<lparr>ArrayMessage.headerReader := hr\<rparr>"
  shows "ArrayMessage_feed_loop h m data bytes c =
           (if \<not> Uint16Message_done hr then Some (c + n, m1)
            else if 0 < ArrayMessage.maxSize m \<and> ArrayMessage.maxSize m < Uint16Message_value hr
              then Some (c + n, m1\<lparr>ArrayMessage.state := ERROR, ArrayMessage.error := TOO_LARGE\<rparr>)
            else if Uint16Message_value hr = 0 then Some (c + n, m1\<lparr>ArrayMessage.state := DONE\<rparr>)
            else ArrayMessage_feed_loop h (m1\<lparr>ArrayMessage.state := READING_BODY\<rparr>) data bytes (c + n))"
    and "n = min (length bytes - c) (2 - Uint16Message.consumed (ArrayMessage.headerReader m))"
    and "Uint16Message.consumed hr = Uint16Message.consumed (ArrayMessage.headerReader m) + n"
proof -
  note F = Uint16Message_feed_facts [OF feed]
  show n: "n = min (length bytes - c) (2 - Uint16Message.consumed (ArrayMessage.headerReader m))"
    using F(1) by simp
  show hc: "Uint16Message.consumed hr = Uint16Message.consumed (ArrayMessage.headerReader m) + n"
    by (rule F(2))
  have nd: "\<not> ArrayMessage_done m" by (simp add: ArrayMessage_done_def st)
  define r where "r =
     (if Uint16Message_done hr then
        if ArrayMessage.maxSize m > 0 \<and> Uint16Message_value hr > ArrayMessage.maxSize m then
          (m1\<lparr>ArrayMessage.state := ERROR, ArrayMessage.error := TOO_LARGE\<rparr>, c + n)
        else if Uint16Message_value hr = 0 then (m1\<lparr>ArrayMessage.state := DONE\<rparr>, c + n)
        else (m1\<lparr>ArrayMessage.state := READING_BODY\<rparr>, c + n)
      else (m1, c + n))"
  have body: "ArrayMessage_feed_body h m data bytes c = Some (fst r, snd r)"
    unfolding ArrayMessage_feed_body_def Let_def
    by (simp add: st feed r_def m1_def)
  have step: "ArrayMessage_feed_loop h m data bytes c = ArrayMessage_feed_loop h (fst r) data bytes (snd r)"
    by (rule ArrayMessage_feed_loop_step [OF c nd body])
  show "ArrayMessage_feed_loop h m data bytes c =
           (if \<not> Uint16Message_done hr then Some (c + n, m1)
            else if 0 < ArrayMessage.maxSize m \<and> ArrayMessage.maxSize m < Uint16Message_value hr
              then Some (c + n, m1\<lparr>ArrayMessage.state := ERROR, ArrayMessage.error := TOO_LARGE\<rparr>)
            else if Uint16Message_value hr = 0 then Some (c + n, m1\<lparr>ArrayMessage.state := DONE\<rparr>)
            else ArrayMessage_feed_loop h (m1\<lparr>ArrayMessage.state := READING_BODY\<rparr>) data bytes (c + n))"
  proof (cases "Uint16Message_done hr")
    case False
    then have "n < 2 - Uint16Message.consumed (ArrayMessage.headerReader m)"
      using hc lt n by (auto simp add: Uint16Message_done_def min_def split: if_splits)
    then have "n = length bytes - c" using n by simp
    then have "\<not> c + n < length bytes" using c by simp
    then have "ArrayMessage_feed_loop h m1 data bytes (c + n) = Some (c + n, m1)"
      by (intro ArrayMessage_feed_loop_stop) simp
    with step False show ?thesis by (simp add: r_def)
  next
    case True
    consider (err) "0 < ArrayMessage.maxSize m \<and> ArrayMessage.maxSize m < Uint16Message_value hr"
      | (zero) "\<not> (0 < ArrayMessage.maxSize m \<and> ArrayMessage.maxSize m < Uint16Message_value hr)"
          "Uint16Message_value hr = 0"
      | (body) "\<not> (0 < ArrayMessage.maxSize m \<and> ArrayMessage.maxSize m < Uint16Message_value hr)"
          "Uint16Message_value hr \<noteq> 0"
      by blast
    then show ?thesis
    proof cases
      case err
      have "ArrayMessage_done (m1\<lparr>ArrayMessage.state := ERROR, ArrayMessage.error := TOO_LARGE\<rparr>)"
        by (simp add: ArrayMessage_done_def)
      then have "ArrayMessage_feed_loop h (m1\<lparr>ArrayMessage.state := ERROR, ArrayMessage.error := TOO_LARGE\<rparr>)
          data bytes (c + n)
          = Some (c + n, m1\<lparr>ArrayMessage.state := ERROR, ArrayMessage.error := TOO_LARGE\<rparr>)"
        by (intro ArrayMessage_feed_loop_stop) simp
      with step True err show ?thesis by (simp add: r_def)
    next
      case zero
      have "ArrayMessage_done (m1\<lparr>ArrayMessage.state := DONE\<rparr>)"
        by (simp add: ArrayMessage_done_def)
      then have "ArrayMessage_feed_loop h (m1\<lparr>ArrayMessage.state := DONE\<rparr>) data bytes (c + n)
          = Some (c + n, m1\<lparr>ArrayMessage.state := DONE\<rparr>)"
        by (intro ArrayMessage_feed_loop_stop) simp
      with step True zero show ?thesis
        by (auto simp add: r_def)
    next
      case body
      with step True show ?thesis by (auto simp add: r_def)
    qed
  qed
qed

lemma ArrayMessage_feed_consumes:
  assumes wf: "ArrayMessage_wf m"
  shows "\<exists>n m'. ArrayMessage_feed h m data bytes = Some (n, m') \<and> ArrayMessage_wf m' \<and>
           n \<le> length bytes \<and>
           (\<not> ArrayMessage_done m' \<longrightarrow> n = length bytes) \<and>
           (ArrayMessage.state m = READING_BODY \<longrightarrow>
              n \<le> unat (Uint16Message_value (ArrayMessage.headerReader m))
                    - length (ArrayMessage.buffer m)) \<and>
           (ArrayMessage.state m = READING_HEADER \<longrightarrow>
              n \<le> (2 - Uint16Message.consumed (ArrayMessage.headerReader m))
                    + (if ArrayMessage.state m' = READING_BODY \<or> ArrayMessage.state m' = DONE
                       then unat (Uint16Message_value (ArrayMessage.headerReader m')) else 0)) \<and>
           (ArrayMessage_done m \<longrightarrow> n = 0 \<and> m' = m)"
proof (cases "ArrayMessage.state m")
  case DONE
  then have "ArrayMessage_done m" by (simp add: ArrayMessage_done_def)
  then have "ArrayMessage_feed h m data bytes = Some (0, m)"
    by (simp add: ArrayMessage_feed_def ArrayMessage_feed_loop_stop)
  with wf DONE show ?thesis by (simp add: ArrayMessage_done_def)
next
  case ERROR
  then have "ArrayMessage_done m" by (simp add: ArrayMessage_done_def)
  then have "ArrayMessage_feed h m data bytes = Some (0, m)"
    by (simp add: ArrayMessage_feed_def ArrayMessage_feed_loop_stop)
  with wf ERROR show ?thesis by (simp add: ArrayMessage_done_def)
next
  case READING_BODY
  with wf have hd: "Uint16Message.consumed (ArrayMessage.headerReader m) = 2"
    and lt: "length (ArrayMessage.buffer m)
          < unat (Uint16Message_value (ArrayMessage.headerReader m))"
    by (simp_all add: ArrayMessage_wf_def)
  from ArrayMessage_feed_loop_body [OF READING_BODY hd lt, of 0 bytes h data]
  obtain k m' where "ArrayMessage_feed_loop h m data bytes 0 = Some (k, m')"
    and "k \<le> length bytes"
    and "k \<le> unat (Uint16Message_value (ArrayMessage.headerReader m)) - length (ArrayMessage.buffer m)"
    and "ArrayMessage_wf m'" and "\<not> ArrayMessage_done m' \<longrightarrow> k = length bytes"
    by auto
  with READING_BODY show ?thesis
    by (simp add: ArrayMessage_feed_def ArrayMessage_done_def)
next
  case READING_HEADER
  with wf have lt: "Uint16Message.consumed (ArrayMessage.headerReader m) < 2"
    and buf: "ArrayMessage.buffer m = []"
    by (simp_all add: ArrayMessage_wf_def)
  have nd: "\<not> ArrayMessage_done m" by (simp add: ArrayMessage_done_def READING_HEADER)
  let ?c = "Uint16Message.consumed (ArrayMessage.headerReader m)"
  show ?thesis
  proof (cases "bytes = []")
    case True
    then have "ArrayMessage_feed h m data bytes = Some (0, m)"
      by (simp add: ArrayMessage_feed_def ArrayMessage_feed_loop_stop)
    with wf nd True show ?thesis by simp
  next
    case False
    then have c: "0 < length bytes" by simp
    obtain n hr where feed: "Uint16Message_feed h (ArrayMessage.headerReader m) (drop 0 bytes) = (n, hr)"
      by (cases "Uint16Message_feed h (ArrayMessage.headerReader m) (drop 0 bytes)")
    define m1 where "m1 = m\<lparr>ArrayMessage.headerReader := hr\<rparr>"
    note H = ArrayMessage_feed_loop_header(1) [OF READING_HEADER lt c feed, of data, folded m1_def]
    have n: "n = min (length bytes) (2 - ?c)" and hc: "Uint16Message.consumed hr = ?c + n"
      using ArrayMessage_feed_loop_header(2,3) [OF READING_HEADER lt c feed] by simp_all
    have nb: "n \<le> length bytes" and n4: "n \<le> 2 - ?c" using n by simp_all
    consider (part) "\<not> Uint16Message_done hr"
      | (err) "Uint16Message_done hr"
          "0 < ArrayMessage.maxSize m \<and> ArrayMessage.maxSize m < Uint16Message_value hr"
      | (zero) "Uint16Message_done hr"
          "\<not> (0 < ArrayMessage.maxSize m \<and> ArrayMessage.maxSize m < Uint16Message_value hr)"
          "Uint16Message_value hr = 0"
      | (body) "Uint16Message_done hr"
          "\<not> (0 < ArrayMessage.maxSize m \<and> ArrayMessage.maxSize m < Uint16Message_value hr)"
          "Uint16Message_value hr \<noteq> 0"
      by blast
    then show ?thesis
    proof cases
      case part
      then have loop: "ArrayMessage_feed h m data bytes = Some (n, m1)"
        using H by (simp add: ArrayMessage_feed_def)
      have "?c + n < 2" using part hc n4 lt by (simp add: Uint16Message_done_def)
      then have wf1: "ArrayMessage_wf m1" and all: "n = length bytes"
        using hc buf READING_HEADER n by (auto simp add: ArrayMessage_wf_def m1_def)
      have st1: "ArrayMessage.state m1 = READING_HEADER" by (simp add: m1_def READING_HEADER)
      from loop wf1 all n4 st1 nd READING_HEADER show ?thesis by simp
    next
      case err
      define m' where "m' = m1\<lparr>ArrayMessage.state := ERROR, ArrayMessage.error := TOO_LARGE\<rparr>"
      have loop: "ArrayMessage_feed h m data bytes = Some (n, m')"
        using H err by (simp add: ArrayMessage_feed_def m'_def)
      have wf1: "ArrayMessage_wf m'" and st1: "ArrayMessage.state m' = ERROR"
        by (simp_all add: ArrayMessage_wf_def m'_def)
      from loop wf1 nb n4 st1 nd READING_HEADER show ?thesis
        by (simp add: ArrayMessage_done_def)
    next
      case zero
      define m' where "m' = m1\<lparr>ArrayMessage.state := DONE\<rparr>"
      have loop: "ArrayMessage_feed h m data bytes = Some (n, m')"
        using H zero by (auto simp add: ArrayMessage_feed_def m'_def)
      have wf1: "ArrayMessage_wf m'" and st1: "ArrayMessage.state m' = DONE"
        by (simp_all add: ArrayMessage_wf_def m'_def)
      from loop wf1 nb n4 st1 nd READING_HEADER show ?thesis
        by (simp add: ArrayMessage_done_def)
    next
      case body
      define m2 where "m2 = m1\<lparr>ArrayMessage.state := READING_BODY\<rparr>"
      have loop: "ArrayMessage_feed h m data bytes = ArrayMessage_feed_loop h m2 data bytes (0 + n)"
        using H body by (auto simp add: ArrayMessage_feed_def m2_def)
      have st2: "ArrayMessage.state m2 = READING_BODY"
        and hd2: "Uint16Message.consumed (ArrayMessage.headerReader m2) = 2"
        and hr2: "ArrayMessage.headerReader m2 = hr"
        and lt2: "length (ArrayMessage.buffer m2)
            < unat (Uint16Message_value (ArrayMessage.headerReader m2))"
        using body(1,3) buf
        by (simp_all add: m2_def m1_def Uint16Message_done_def unat_gt_0)
      from ArrayMessage_feed_loop_body [OF st2 hd2 lt2, of "0 + n" bytes h data] nb
      obtain k m' where l2: "ArrayMessage_feed_loop h m2 data bytes (0 + n) = Some (0 + n + k, m')"
        and kb: "k \<le> length bytes - (0 + n)"
        and kv: "k \<le> unat (Uint16Message_value (ArrayMessage.headerReader m2)) - length (ArrayMessage.buffer m2)"
        and wf': "ArrayMessage_wf m'"
        and hr': "ArrayMessage.headerReader m' = ArrayMessage.headerReader m2"
        and fin: "\<not> ArrayMessage_done m' \<longrightarrow> 0 + n + k = length bytes"
        and stm: "ArrayMessage.state m' = DONE \<or> ArrayMessage.state m' = READING_BODY"
        by auto
      have r: "ArrayMessage_feed h m data bytes = Some (n + k, m')"
        using loop l2 by simp
      have b1: "n + k \<le> length bytes" using kb nb by simp
      have b2: "n + k \<le> (2 - ?c) + unat (Uint16Message_value (ArrayMessage.headerReader m'))"
        using kv n4 by (simp add: hr')
      from r wf' b1 b2 fin stm nd READING_HEADER show ?thesis
        by auto
    qed
  qed
qed

section \<open>Generating a scalar message from fragments\<close>

lemma ScalarMessage_generate_loop_eq:
  "ScalarMessage_generate_loop data t out =
     (if \<exists>d \<in> set data. length d > 0xFFFFFFFF then
        Inl (ArgumentException ''Data size exceeds maximum size for scalar messages.'')
      else Inr (t + of_nat (sum_list (map length data)), out @ data))"
  by (induction data arbitrary: t out) (auto simp add: algebra_simps)

text \<open>
  C7. Given \<open>count\<close> fragments, \<^verbatim>\<open>ScalarMessage::generate\<close> throws the argument error
  exactly when some single fragment is longer than \<open>0xFFFFFFFF\<close>; otherwise it produces
  \<open>count + 1\<close> views, the 4-byte big-endian header followed by the fragments in their
  order, and the header is the sum of the fragment lengths modulo \<open>2 ^ 32\<close>: the sum
  itself is never compared with the ceiling.
\<close>

theorem ScalarMessage_generate_multi_spec:
  "ScalarMessage_generate_multi h data =
     (if \<exists>d \<in> set data. length d > 0xFFFFFFFF then
        Inl (ArgumentException ''Data size exceeds maximum size for scalar messages.'')
      else Inr (be_bytes 4 (of_nat (sum_list (map length data)) :: 32 word) # data)) \<and>
   (\<forall>out. ScalarMessage_generate_multi h data = Inr out \<longrightarrow>
      length out = length data + 1 \<and> length (hd out) = 4 \<and> tl out = data \<and>
      unat (word_of_be (hd out) :: 32 word) = sum_list (map length data) mod 2 ^ 32)"
  by (auto simp add: ScalarMessage_generate_multi_def ScalarMessage_generate_loop_eq
      Uint32Message_generate_eq word_of_be_bytes_32 unat_of_nat simp del: be_bytes.simps)

text \<open>
  Two fragments of \<open>2 ^ 31\<close> bytes each are accepted and give the header 0; a fragment
  of \<open>2 ^ 32\<close> bytes is rejected.
\<close>

theorem ScalarMessage_generate_multi_witness:
  "ScalarMessage_generate_multi LittleEndian [replicate 2147483648 0, replicate 2147483648 1]
     = Inr [[0, 0, 0, 0], replicate 2147483648 0, replicate 2147483648 1] \<and>
   sum_list (map length [replicate 2147483648 (0 :: byte), replicate 2147483648 1]) = 2 ^ 32 \<and>
   ScalarMessage_generate_multi LittleEndian [[1], replicate 4294967296 0]
     = Inl (ArgumentException ''Data size exceeds maximum size for scalar messages.'')"
  using ScalarMessage_generate_multi_spec [of LittleEndian "[replicate 2147483648 0, replicate 2147483648 1]"]
    ScalarMessage_generate_multi_spec [of LittleEndian "[[1], replicate 4294967296 0]"]
  by (simp add: be_bytes_4)

section \<open>Fragmentation independence\<close>

text \<open>
  C1. Take any byte sequence, cut into consecutive chunks in any way (one byte per chunk
  included). Feeding the chunks in order to a fresh \<^verbatim>\<open>ArrayMessage\<close> (with any ceiling
  set) or to a fresh \<^verbatim>\<open>ScalarMessage\<close> and feeding the whole sequence in one
  \<^verbatim>\<open>feed()\<close> call both return, consume the same total number of bytes, end in the
  same state, with the same error code if that state is the error state, and with
  values that denote the same bytes.
\<close>

theorem fragmentation_independence:
  fixes chunks :: "byte list list"
  shows
    "(\<exists>n m1 m2.
       ArrayMessage_feed_chunks h (ArrayMessage_setMaxSize (ArrayMessage_init v0 e0) mx) 0 chunks
         = Some (n, m1) \<and>
       ArrayMessage_feed h (ArrayMessage_setMaxSize (ArrayMessage_init v0 e0) mx) (CallerData 0, 0)
         (concat chunks) = Some (n, m2) \<and>
       ArrayMessage.state m1 = ArrayMessage.state m2 \<and>
       (ArrayMessage_hasError m1 \<longrightarrow>
          ArrayMessage_errorCode m1 = TOO_LARGE \<and> ArrayMessage_errorCode m2 = TOO_LARGE) \<and>
       ArrayMessage_value_bytes chunks m1 = ArrayMessage_value_bytes [concat chunks] m2) \<and>
     (\<exists>n m1 m2.
       ScalarMessage_feed_chunks h (ScalarMessage_init mx' v0' e0') 0 chunks = Some (n, m1) \<and>
       ScalarMessage_feed h (ScalarMessage_init mx' v0' e0') (CallerData 0, 0) (concat chunks)
         = Some (n, m2) \<and>
       ScalarMessage.state m1 = ScalarMessage.state m2 \<and>
       (ScalarMessage_hasError m1 \<longrightarrow>
          ScalarMessage_errorCode m1 = TOO_LARGE \<and> ScalarMessage_errorCode m2 = TOO_LARGE) \<and>
       ScalarMessage_value_bytes chunks m1 = ScalarMessage_value_bytes [concat chunks] m2)"
  by (rule conjI, rule ArrayMessage_fragmentation, rule ScalarMessage_fragmentation)

text \<open>
  The scalar message \<open>hello\<close> fed one byte at a time, and an array header of 2 over a
  ceiling of 1 that arrives in two chunks.
\<close>

theorem fragmentation_independence_witness:
  "(\<exists>m1. ScalarMessage_feed_chunks LittleEndian (ScalarMessage_init 0 0 0) 0
           [[0], [0], [0], [5], [104], [101], [108], [108], [111]] = Some (9, m1) \<and>
         ScalarMessage.state m1 = DONE \<and>
         ScalarMessage_value_bytes [[0], [0], [0], [5], [104], [101], [108], [108], [111]] m1
           = [104, 101, 108, 108, 111]) \<and>
   (\<exists>m1. ArrayMessage_feed_chunks BigEndian (ArrayMessage_setMaxSize (ArrayMessage_init 0 7) 1) 0
           [[0], [2, 65], [0]] = Some (2, m1) \<and>
         ArrayMessage_hasError m1 \<and> ArrayMessage_errorCode m1 = TOO_LARGE)"
proof -
  let ?cs = "[[0], [0], [0], [5], [104], [101], [108], [108], [111]] :: byte list list"
  let ?M = "\<lparr>ScalarMessage.state = DONE, error = 0, maxSize = 0,
         headerReader = \<lparr>Uint32Message.val = 5, consumed = 4\<rparr>, buffer = [],
         result = \<lparr>content = (CallerData 0, 4), len = 5\<rparr>\<rparr>"
  have 1: "ScalarMessage_feed LittleEndian (ScalarMessage_init 0 0 0) (CallerData 0, 0) (concat ?cs)
           = Some (9, ?M)"
    by code_simp
  have 2: "ScalarMessage_value_bytes [concat ?cs] ?M = [104, 101, 108, 108, 111]"
    by code_simp
  let ?ca = "[[0], [2, 65], [0]] :: byte list list"
  let ?A = "\<lparr>toReserve = 0, maxSize = 1,
         headerReader = \<lparr>Uint16Message.val = 2, consumed = 2\<rparr>,
         state = ERROR, error = 0, buffer = [], result = []\<rparr>"
  have 3: "ArrayMessage_feed BigEndian (ArrayMessage_setMaxSize (ArrayMessage_init 0 7) 1)
             (CallerData 0, 0) (concat ?ca) = Some (2, ?A)"
    by code_simp
  from fragmentation_independence [of LittleEndian 0 0 0 ?cs 0 0 0] 1 2
  have s: "\<exists>m1. ScalarMessage_feed_chunks LittleEndian (ScalarMessage_init 0 0 0) 0 ?cs = Some (9, m1) \<and>
         ScalarMessage.state m1 = DONE \<and>
         ScalarMessage_value_bytes ?cs m1 = [104, 101, 108, 108, 111]"
    by auto
  from fragmentation_independence [of BigEndian 0 7 1 ?ca 0 0 0] 3
  have a: "\<exists>m1. ArrayMessage_feed_chunks BigEndian (ArrayMessage_setMaxSize (ArrayMessage_init 0 7) 1) 0
           ?ca = Some (2, m1) \<and>
         ArrayMessage_hasError m1 \<and> ArrayMessage_errorCode m1 = TOO_LARGE"
    by (auto simp add: ArrayMessage_hasError_def)
  from s a show ?thesis by blast
qed

section \<open>Splitting the body of an array message\<close>

lemma ArrayMessage_decode:
  fixes body :: "byte list"
  assumes len: "length body \<le> 65535"
    and s: "concat chunks = be_bytes 2 (of_nat (length body) :: 16 word) @ body @ extra"
  shows "\<exists>m. ArrayMessage_feed_chunks h (ArrayMessage_init v0 e0) 0 chunks
              = Some (2 + length body, m) \<and>
            ArrayMessage.state m = DONE \<and>
            ArrayMessage_value_bytes chunks m = nul_fields body"
proof -
  let ?v = "of_nat (length body) :: 16 word"
  let ?hdr = "be_bytes 2 ?v"
  have uv: "unat ?v = length body"
    using len by (simp add: unat_of_nat)
  have t2: "take 2 (concat chunks) = ?hdr" by (simp add: s)
  have v: "(word_of_be (take 2 (concat chunks)) :: 16 word) = ?v"
    unfolding t2 by (rule word_of_be_bytes_16)
  have ls: "length (concat chunks) = 2 + length body + length extra" by (simp add: s)
  have L: "array_len 0 (concat chunks) = 2 + length body"
    unfolding array_len_def Let_def v uv using ls by simp
  define p where "p = take (2 + length body) (concat chunks)"
  have p: "p = ?hdr @ body" by (simp add: p_def s)
  from ArrayMessage_run [of h v0 e0 0 chunks]
  obtain m where run: "ArrayMessage_feed_chunks h (ArrayMessage_init v0 e0) 0 chunks
        = Some (2 + length body, m)"
    and inv: "array_inv h (chunk_memory chunks []) m p"
    and mx: "ArrayMessage.maxSize m = 0"
    unfolding L p_def by auto
  have tp: "take 2 p = ?hdr" and dp: "drop 2 p = body" and lp: "length p = 2 + length body"
    by (simp_all add: p)
  have vp: "(word_of_be (take 2 p) :: 16 word) = ?v"
    unfolding tp by (rule word_of_be_bytes_16)
  have "2 \<le> length p" using lp by simp
  moreover have "\<not> (0 < ArrayMessage.maxSize m \<and> ArrayMessage.maxSize m < word_of_be (take 2 p))"
    by (simp add: mx)
  moreover have "\<not> length p < 2 + unat (word_of_be (take 2 p) :: 16 word)"
    by (simp add: vp uv lp)
  ultimately have "ArrayMessage.state m = DONE"
    and "map (StaticString_bytes ((chunk_memory chunks [])(OwnBuffer := ArrayMessage.buffer m)))
           (ArrayMessage.result m) = nul_fields (drop 2 p)"
    by (rule array_inv_done [OF inv])+
  then have "ArrayMessage.state m = DONE" and "ArrayMessage_value_bytes chunks m = nul_fields body"
    by (simp_all add: ArrayMessage_value_bytes_def ArrayMessage_value_def chunk_memory_upd dp)
  with run show ?thesis by blast
qed

text \<open>
  C5. Once the body of an array message is complete, whether it was taken from the
  caller's chunk or collected in the reader's buffer (the chunks are arbitrary), it is
  split at the NUL bytes into views, in order, and a last byte run without a NUL after
  it is dropped: a body made of the NUL-terminated fields \<open>fs\<close> followed by a NUL-free
  run \<open>t\<close> decodes to \<open>fs\<close>. The second part states the same of \<^verbatim>\<open>parseBody\<close> alone.
\<close>

theorem array_body_splitting:
  fixes fs :: "byte list list" and t :: "byte list"
  assumes "\<forall>f \<in> set fs. 0 \<notin> set f" and "0 \<notin> set t"
  defines "body \<equiv> concat (map (\<lambda>f. f @ [0]) fs) @ t"
  shows "(length body \<le> 65535 \<and>
          concat chunks = be_bytes 2 (of_nat (length body) :: 16 word) @ body @ extra \<longrightarrow>
          (\<exists>m. ArrayMessage_feed_chunks h (ArrayMessage_init v0 e0) 0 chunks
                  = Some (2 + length body, m) \<and>
                ArrayMessage.state m = DONE \<and>
                ArrayMessage_value_bytes chunks m = fs)) \<and>
         (take (length body) (drop (snd data) (mem (fst data))) = body \<longrightarrow>
          map (StaticString_bytes mem) (ArrayMessage_value (parseBody m0 data body))
            = map (StaticString_bytes mem) (ArrayMessage_value m0) @ fs)"
proof -
  have nf: "nul_fields body = fs"
    unfolding body_def by (rule nul_fields_terminated [OF assms(1,2)])
  show ?thesis
  proof (intro conjI impI)
    assume "length body \<le> 65535 \<and>
          concat chunks = be_bytes 2 (of_nat (length body) :: 16 word) @ body @ extra"
    then show "\<exists>m. ArrayMessage_feed_chunks h (ArrayMessage_init v0 e0) 0 chunks
                  = Some (2 + length body, m) \<and>
                ArrayMessage.state m = DONE \<and>
                ArrayMessage_value_bytes chunks m = fs"
      using ArrayMessage_decode [of body chunks extra h v0 e0] by (simp add: nf)
  next
    assume "take (length body) (drop (snd data) (mem (fst data))) = body"
    from parseBody_loop_bytes [where bytes = body and data = data and mem = mem and start = 0
        and res = "ArrayMessage.result m0", OF this]
    show "map (StaticString_bytes mem) (ArrayMessage_value (parseBody m0 data body))
            = map (StaticString_bytes mem) (ArrayMessage_value m0) @ fs"
      by (simp add: parseBody_def ArrayMessage_value_def nf)
  qed
qed

text \<open>
  The body \<open>a NUL b NUL c NUL\<close> of length 6 decodes to \<open>a\<close>, \<open>b\<close>, \<open>c\<close>; the body
  \<open>a NUL b NUL c\<close> of length 5, arriving in two chunks, decodes to \<open>a\<close>, \<open>b\<close>.
\<close>

theorem array_body_splitting_witness:
  "(\<exists>m. ArrayMessage_feed LittleEndian (ArrayMessage_init 0 0) (CallerData 0, 0)
           [0, 6, 97, 0, 98, 0, 99, 0] = Some (8, m) \<and>
         ArrayMessage.state m = DONE \<and>
         ArrayMessage_value_bytes [[0, 6, 97, 0, 98, 0, 99, 0]] m = [[97], [98], [99]]) \<and>
   (\<exists>m. ArrayMessage_feed_chunks LittleEndian (ArrayMessage_init 0 0) 0
           [[0, 5, 97, 0], [98, 0, 99]] = Some (7, m) \<and>
         ArrayMessage.state m = DONE \<and>
         ArrayMessage_value_bytes [[0, 5, 97, 0], [98, 0, 99]] m = [[97], [98]]) \<and>
   map (StaticString_bytes (\<lambda>b. [97, 0, 98, 0, 99]))
     (ArrayMessage_value (parseBody (ArrayMessage_init 0 0) (CallerData 0, 0) [97, 0, 98, 0, 99]))
     = [[97], [98]]"
  using
    array_body_splitting [of "[[97], [98], [99]]" "[]" "[[0, 6, 97, 0, 98, 0, 99, 0]]" "[]"
      LittleEndian 0 0 "(CallerData 0, 0)" "\<lambda>b. [97, 0, 98, 0, 99, 0]" "ArrayMessage_init 0 0"]
    array_body_splitting [of "[[97], [98]]" "[99]" "[[0, 5, 97, 0], [98, 0, 99]]" "[]"
      LittleEndian 0 0 "(CallerData 0, 0)" "\<lambda>b. [97, 0, 98, 0, 99]" "ArrayMessage_init 0 0"]
  by (simp add: be_bytes_2 ArrayMessage_feed_chunks_single [symmetric] ArrayMessage_value_def
      ArrayMessage_init_def del: ArrayMessage_feed_chunks.simps)

section \<open>Round trip\<close>

text \<open>
  C2, as amended. An array of fields none of which contains a NUL byte, whose body
  (the fields and one separator each) is at most 65535 bytes long, and for which the
  output array is large enough, is generated without error as \<open>2N + 1\<close> views; a
  payload of at most \<open>0xFFFFFFFF\<close> bytes is generated as 2 views. Feeding the
  concatenation of the views to a fresh reader of the same format, on a host of any
  byte order, consumes all of it, reaches \<^verbatim>\<open>DONE\<close> without error, and the value
  denotes the original fields (the original payload).
\<close>

theorem generate_feed_roundtrip:
  fixes args :: "byte list list" and data :: "byte list"
  shows
    "((\<forall>a \<in> set args. 0 \<notin> set a) \<and>
      sum_list (map (\<lambda>a. length a + 1) args) \<le> 65535 \<and>
      ArrayMessage_outputSize (length args) \<le> outCount \<longrightarrow>
      (\<exists>out m. ArrayMessage_generate h args outCount = Inr out \<and>
         length out = 2 * length args + 1 \<and>
         ArrayMessage_feed h' (ArrayMessage_init v0 e0) (CallerData 0, 0) (concat out)
           = Some (length (concat out), m) \<and>
         ArrayMessage.state m = DONE \<and> \<not> ArrayMessage_hasError m \<and>
         ArrayMessage_value_bytes [concat out] m = args)) \<and>
     (length data \<le> 4294967295 \<longrightarrow>
      (\<exists>out m. ScalarMessage_generate h data = Inr out \<and>
         length out = 2 \<and>
         ScalarMessage_feed h' (ScalarMessage_init 0 v0' e0') (CallerData 0, 0) (concat out)
           = Some (length (concat out), m) \<and>
         ScalarMessage.state m = DONE \<and> \<not> ScalarMessage_hasError m \<and>
         ScalarMessage_value_bytes [concat out] m = data))"
proof (intro conjI impI)
  assume a: "(\<forall>a \<in> set args. 0 \<notin> set a) \<and>
      sum_list (map (\<lambda>a. length a + 1) args) \<le> 65535 \<and>
      ArrayMessage_outputSize (length args) \<le> outCount"
  define body where "body = concat (map (\<lambda>a. a @ [0 :: byte]) args)"
  define out where "out = be_bytes 2 (of_nat (length body) :: 16 word) # concat (map (\<lambda>a. [a, [0]]) args)"
  have lb: "length body = sum_list (map (\<lambda>a. length a + 1) args)"
    by (simp add: body_def length_concat_terminated)
  have gen: "ArrayMessage_generate h args outCount = Inr out"
    using a by (simp add: ArrayMessage_generate_ok out_def lb del: be_bytes.simps)
  have co: "concat out = be_bytes 2 (of_nat (length body) :: 16 word) @ body @ []"
    by (simp add: out_def body_def concat_interleave del: be_bytes.simps)
  have "length (concat (map (\<lambda>a. [a, [0 :: byte]]) args)) = 2 * length args"
    by (induction args) simp_all
  then have lo: "length out = 2 * length args + 1"
    by (simp add: out_def)
  have nf: "nul_fields body = args"
    using nul_fields_terminated [of args "[]"] a by (simp add: body_def)
  from ArrayMessage_decode [of body "[concat out]" "[]" h' v0 e0] a co lb
  obtain m where run: "ArrayMessage_feed_chunks h' (ArrayMessage_init v0 e0) 0 [concat out]
        = Some (2 + length body, m)"
    and st: "ArrayMessage.state m = DONE"
    and val: "ArrayMessage_value_bytes [concat out] m = nul_fields body"
    by auto
  have lc: "length (concat out) = 2 + length body"
    unfolding co by simp
  have feed: "ArrayMessage_feed h' (ArrayMessage_init v0 e0) (CallerData 0, 0) (concat out)
           = Some (length (concat out), m)"
    using run unfolding ArrayMessage_feed_chunks_single lc .
  have ne: "\<not> ArrayMessage_hasError m"
    by (simp add: ArrayMessage_hasError_def st)
  from gen lo feed st ne val [unfolded nf]
  show "\<exists>out m. ArrayMessage_generate h args outCount = Inr out \<and>
         length out = 2 * length args + 1 \<and>
         ArrayMessage_feed h' (ArrayMessage_init v0 e0) (CallerData 0, 0) (concat out)
           = Some (length (concat out), m) \<and>
         ArrayMessage.state m = DONE \<and> \<not> ArrayMessage_hasError m \<and>
         ArrayMessage_value_bytes [concat out] m = args"
    by blast
next
  assume a: "length data \<le> 4294967295"
  define out where "out = [be_bytes 4 (of_nat (length data) :: 32 word), data]"
  have gen: "ScalarMessage_generate h data = Inr out"
    using a by (simp add: ScalarMessage_generate_def Uint32Message_generate_eq out_def del: be_bytes.simps)
  have co: "concat out = be_bytes 4 (of_nat (length data) :: 32 word) @ data @ []"
    by (simp add: out_def del: be_bytes.simps)
  from ScalarMessage_decode [of data 0 "[concat out]" "[]" h' v0' e0'] a co
  obtain m where run: "ScalarMessage_feed_chunks h' (ScalarMessage_init 0 v0' e0') 0 [concat out]
        = Some (4 + length data, m)"
    and st: "ScalarMessage.state m = DONE"
    and val: "ScalarMessage_value_bytes [concat out] m = data"
    by auto
  have lc: "length (concat out) = 4 + length data"
    unfolding co by simp
  have feed: "ScalarMessage_feed h' (ScalarMessage_init 0 v0' e0') (CallerData 0, 0) (concat out)
           = Some (length (concat out), m)"
    using run unfolding ScalarMessage_feed_chunks_single lc .
  have ne: "\<not> ScalarMessage_hasError m"
    by (simp add: ScalarMessage_hasError_def st)
  have lo: "length out = 2" by (simp add: out_def)
  from gen lo feed st ne val
  show "\<exists>out m. ScalarMessage_generate h data = Inr out \<and>
         length out = 2 \<and>
         ScalarMessage_feed h' (ScalarMessage_init 0 v0' e0') (CallerData 0, 0) (concat out)
           = Some (length (concat out), m) \<and>
         ScalarMessage.state m = DONE \<and> \<not> ScalarMessage_hasError m \<and>
         ScalarMessage_value_bytes [concat out] m = data"
    by blast
qed


text \<open>The fields \<open>a\<close>, \<open>b\<close> and the payload \<open>hello\<close>.\<close>

theorem generate_feed_roundtrip_witness:
  "(\<exists>m. ArrayMessage_feed BigEndian (ArrayMessage_init 0 0) (CallerData 0, 0)
           [0, 4, 97, 0, 98, 0] = Some (6, m) \<and>
         ArrayMessage.state m = DONE \<and>
         ArrayMessage_value_bytes [[0, 4, 97, 0, 98, 0]] m = [[97], [98]]) \<and>
   (\<exists>m. ScalarMessage_feed BigEndian (ScalarMessage_init 0 0 0) (CallerData 0, 0)
           [0, 0, 0, 5, 104, 101, 108, 108, 111] = Some (9, m) \<and>
         ScalarMessage.state m = DONE \<and>
         ScalarMessage_value_bytes [[0, 0, 0, 5, 104, 101, 108, 108, 111]] m
           = [104, 101, 108, 108, 111])"
proof -
  have ga: "ArrayMessage_generate LittleEndian [[97], [98]] 5 = Inr [[0, 4], [97], [0], [98], [0]]"
    by (simp add: ArrayMessage_generate_def ArrayMessage_outputSize_def
        Uint16Message_generate_eq be_bytes_2)
  have gs: "ScalarMessage_generate LittleEndian [104, 101, 108, 108, 111]
            = Inr [[0, 0, 0, 5], [104, 101, 108, 108, 111]]"
    by (simp add: ScalarMessage_generate_def Uint32Message_generate_eq be_bytes_4)
  have pa: "(\<forall>a \<in> set [[97], [98 :: byte]]. 0 \<notin> set a) \<and>
      sum_list (map (\<lambda>a. length a + 1) [[97], [98 :: byte]]) \<le> 65535 \<and>
      ArrayMessage_outputSize (length [[97], [98 :: byte]]) \<le> 5"
    by (simp add: ArrayMessage_outputSize_def)
  have ps: "length [104, 101, 108, 108, 111 :: byte] \<le> 4294967295"
    by simp
  have la: "length (concat [[0, 4], [97], [0], [98], [0 :: byte]]) = 6"
    and ls: "length (concat [[0, 0, 0, 5], [104, 101, 108, 108, 111 :: byte]]) = 9"
    by simp_all
  from generate_feed_roundtrip [of "[[97], [98]]" 5 LittleEndian BigEndian 0 0
      "[104, 101, 108, 108, 111]" 0 0] pa ps
  have "(\<exists>m. ArrayMessage_feed BigEndian (ArrayMessage_init 0 0) (CallerData 0, 0)
            (concat [[0, 4], [97], [0], [98], [0]])
            = Some (length (concat [[0, 4], [97], [0], [98], [0 :: byte]]), m) \<and>
          ArrayMessage.state m = DONE \<and>
          ArrayMessage_value_bytes [concat [[0, 4], [97], [0], [98], [0]]] m = [[97], [98]]) \<and>
        (\<exists>m. ScalarMessage_feed BigEndian (ScalarMessage_init 0 0 0) (CallerData 0, 0)
            (concat [[0, 0, 0, 5], [104, 101, 108, 108, 111]])
            = Some (length (concat [[0, 0, 0, 5], [104, 101, 108, 108, 111 :: byte]]), m) \<and>
          ScalarMessage.state m = DONE \<and>
          ScalarMessage_value_bytes [concat [[0, 0, 0, 5], [104, 101, 108, 108, 111]]] m
            = [104, 101, 108, 108, 111])"
    unfolding ga gs by blast
  then show ?thesis
    unfolding la ls by simp
qed

text \<open>
  Without the condition on NUL bytes the array round trip fails: the generator accepts
  the single field \<open>a NUL b\<close> and writes it unchanged, and the reader decodes the two
  fields \<open>a\<close> and \<open>b\<close>.
\<close>

theorem generate_feed_roundtrip_counterexample:
  "ArrayMessage_generate LittleEndian [[97, 0, 98]] 3 = Inr [[0, 4], [97, 0, 98], [0]] \<and>
   ArrayMessage_feed LittleEndian (ArrayMessage_init 0 0) (CallerData 0, 0)
     (concat [[0, 4], [97, 0, 98], [0]])
     = Some (6, \<lparr>toReserve = 0, maxSize = 0,
                  headerReader = \<lparr>Uint16Message.val = 4, consumed = 2\<rparr>, state = DONE,
                  error = 0, buffer = [],
                  result = [\<lparr>content = (CallerData 0, 2), len = 1\<rparr>,
                            \<lparr>content = (CallerData 0, 4), len = 1\<rparr>]\<rparr>) \<and>
   ArrayMessage_value_bytes [concat [[0, 4], [97, 0, 98], [0]]]
     \<lparr>toReserve = 0, maxSize = 0,
      headerReader = \<lparr>Uint16Message.val = 4, consumed = 2\<rparr>, state = DONE,
      error = 0, buffer = [],
      result = [\<lparr>content = (CallerData 0, 2), len = 1\<rparr>,
                \<lparr>content = (CallerData 0, 4), len = 1\<rparr>]\<rparr>
     = [[97], [98]] \<and>
   [[97], [98]] \<noteq> [[97, 0, 98 :: byte]]"
proof (intro conjI)
  show "ArrayMessage_generate LittleEndian [[97, 0, 98]] 3 = Inr [[0, 4], [97, 0, 98], [0]]"
    by (simp add: ArrayMessage_generate_def ArrayMessage_outputSize_def
        Uint16Message_generate_eq be_bytes_2)
qed code_simp+

section \<open>Ceiling enforcement\<close>

text \<open>
  C3. With a maximum size greater than 0 set by \<^verbatim>\<open>setMaxSize\<close> on a fresh reader, and
  the stream arriving in any chunks: the reader ends in the error state exactly when
  the header is complete and its value exceeds the maximum; the error code is then
  \<^verbatim>\<open>TOO_LARGE\<close>, the calls have consumed the header bytes and nothing more, and nothing
  was buffered or decoded, so the body was never read. A header equal to the maximum
  is no error: the reader goes on to read the body. A header equal to the maximum
  plus one (where that is a header value) is an error.
\<close>

theorem ceiling_enforcement:
  fixes chunks chunks' :: "byte list list" and mx :: "16 word" and mx' :: "32 word"
  assumes "0 < mx" and "0 < mx'"
  shows
    "(\<exists>n m. ArrayMessage_feed_chunks h (ArrayMessage_setMaxSize (ArrayMessage_init v0 e0) mx) 0 chunks
                = Some (n, m) \<and>
        (ArrayMessage_hasError m \<longleftrightarrow>
           2 \<le> length (concat chunks) \<and> mx < word_of_be (take 2 (concat chunks))) \<and>
        (ArrayMessage_hasError m \<longrightarrow>
           ArrayMessage_errorCode m = TOO_LARGE \<and> n = 2 \<and>
           ArrayMessage.buffer m = [] \<and> ArrayMessage_value m = []) \<and>
        (take 2 (concat chunks) = be_bytes 2 mx \<longrightarrow>
           \<not> ArrayMessage_hasError m \<and> n = min (length (concat chunks)) (2 + unat mx) \<and>
           ArrayMessage.state m =
             (if length (concat chunks) < 2 + unat mx then READING_BODY else DONE)) \<and>
        (unat mx + 1 < 2 ^ 16 \<and> take 2 (concat chunks) = be_bytes 2 (mx + 1) \<longrightarrow>
           ArrayMessage_hasError m)) \<and>
     (\<exists>n m. ScalarMessage_feed_chunks h
                (ScalarMessage_setMaxSize (ScalarMessage_init mx0 v0' e0') mx') 0 chunks'
                = Some (n, m) \<and>
        (ScalarMessage_hasError m \<longleftrightarrow>
           4 \<le> length (concat chunks') \<and> mx' < word_of_be (take 4 (concat chunks'))) \<and>
        (ScalarMessage_hasError m \<longrightarrow>
           ScalarMessage_errorCode m = TOO_LARGE \<and> n = 4 \<and> ScalarMessage.buffer m = []) \<and>
        (take 4 (concat chunks') = be_bytes 4 mx' \<longrightarrow>
           \<not> ScalarMessage_hasError m \<and> n = min (length (concat chunks')) (4 + unat mx') \<and>
           ScalarMessage.state m =
             (if length (concat chunks') < 4 + unat mx' then READING_BODY else DONE)) \<and>
        (unat mx' + 1 < 2 ^ 32 \<and> take 4 (concat chunks') = be_bytes 4 (mx' + 1) \<longrightarrow>
           ScalarMessage_hasError m))"
  using ArrayMessage_ceiling [OF assms(1)] ScalarMessage_ceiling [OF assms(2)]
  by (intro conjI) blast+

text \<open>
  Ceiling 5: headers of 6 arriving in two chunks are refused after 2 (4) bytes;
  headers of 5 are accepted and the body is read.
\<close>

theorem ceiling_enforcement_witness:
  "(\<exists>m. ArrayMessage_feed_chunks LittleEndian (ArrayMessage_setMaxSize (ArrayMessage_init 0 0) 5) 0
           [[0], [6, 1, 2]] = Some (2, m) \<and>
         ArrayMessage_hasError m \<and> ArrayMessage_errorCode m = TOO_LARGE \<and>
         ArrayMessage.buffer m = [] \<and> ArrayMessage_value m = []) \<and>
   (\<exists>m. ScalarMessage_feed_chunks LittleEndian
           (ScalarMessage_setMaxSize (ScalarMessage_init 0 0 0) 5) 0
           [[0, 0], [0, 6, 1]] = Some (4, m) \<and>
         ScalarMessage_hasError m \<and> ScalarMessage_errorCode m = TOO_LARGE \<and>
         ScalarMessage.buffer m = []) \<and>
   (\<exists>m. ArrayMessage_feed_chunks LittleEndian (ArrayMessage_setMaxSize (ArrayMessage_init 0 0) 5) 0
           [[0, 5, 1, 2], [3, 4, 5, 9]] = Some (7, m) \<and>
         \<not> ArrayMessage_hasError m \<and> ArrayMessage.state m = DONE) \<and>
   (\<exists>m. ScalarMessage_feed_chunks LittleEndian
           (ScalarMessage_setMaxSize (ScalarMessage_init 0 0 0) 5) 0
           [[0, 0, 0], [5, 1, 2]] = Some (6, m) \<and>
         \<not> ScalarMessage_hasError m \<and> ScalarMessage.state m = READING_BODY)"
proof -
  have w16: "(word_of_be [0, 6] :: 16 word) = 6" and w32: "(word_of_be [0, 0, 0, 6] :: 32 word) = 6"
    by (simp_all add: word_of_be_def)
  from ceiling_enforcement [of 5 5 LittleEndian 0 0 "[[0], [6, 1, 2]]" 0 0 0 "[[0, 0], [0, 6, 1]]"]
  have "(\<exists>m. ArrayMessage_feed_chunks LittleEndian (ArrayMessage_setMaxSize (ArrayMessage_init 0 0) 5) 0
           [[0], [6, 1, 2]] = Some (2, m) \<and>
         ArrayMessage_hasError m \<and> ArrayMessage_errorCode m = TOO_LARGE \<and>
         ArrayMessage.buffer m = [] \<and> ArrayMessage_value m = []) \<and>
   (\<exists>m. ScalarMessage_feed_chunks LittleEndian
           (ScalarMessage_setMaxSize (ScalarMessage_init 0 0 0) 5) 0
           [[0, 0], [0, 6, 1]] = Some (4, m) \<and>
         ScalarMessage_hasError m \<and> ScalarMessage_errorCode m = TOO_LARGE \<and>
         ScalarMessage.buffer m = [])"
    by (simp add: w16 w32 be_bytes_2 be_bytes_4 del: ArrayMessage_feed_chunks.simps
        ScalarMessage_feed_chunks.simps ScalarMessage_setMaxSize_init) blast
  moreover
  from ceiling_enforcement [of 5 5 LittleEndian 0 0 "[[0, 5, 1, 2], [3, 4, 5, 9]]" 0 0 0
      "[[0, 0, 0], [5, 1, 2]]"]
  have "(\<exists>m. ArrayMessage_feed_chunks LittleEndian (ArrayMessage_setMaxSize (ArrayMessage_init 0 0) 5) 0
           [[0, 5, 1, 2], [3, 4, 5, 9]] = Some (7, m) \<and>
         \<not> ArrayMessage_hasError m \<and> ArrayMessage.state m = DONE) \<and>
   (\<exists>m. ScalarMessage_feed_chunks LittleEndian
           (ScalarMessage_setMaxSize (ScalarMessage_init 0 0 0) 5) 0
           [[0, 0, 0], [5, 1, 2]] = Some (6, m) \<and>
         \<not> ScalarMessage_hasError m \<and> ScalarMessage.state m = READING_BODY)"
    by (simp add: be_bytes_2 be_bytes_4 del: ArrayMessage_feed_chunks.simps
        ScalarMessage_feed_chunks.simps ScalarMessage_setMaxSize_init)
      (auto simp add: eval_nat_numeral simp del: ArrayMessage_feed_chunks.simps
        ScalarMessage_feed_chunks.simps ScalarMessage_setMaxSize_init)
  ultimately show ?thesis by blast
qed

section \<open>Zero-copy and buffered bodies\<close>

lemma parseBody_loop_views:
  "s \<in> set (parseBody_loop data bytes start res) \<Longrightarrow>
   s \<in> set res \<or>
   (fst (content s) = fst data \<and> snd data + start \<le> snd (content s) \<and>
    snd (content s) + len s < snd data + length bytes)"
proof (induction data bytes start res rule: parseBody_loop.induct)
  case (1 data bytes start res)
  show ?case
  proof (cases "memchr (drop start bytes) 0")
    case None
    with "1.prems" show ?thesis
      by (subst (asm) parseBody_loop.simps) simp
  next
    case (Some n)
    from memchr_Some_less [OF Some] have le: "start + n < length bytes" by simp
    from "1.prems" have "s \<in> set (parseBody_loop data bytes (start + n + 1)
        (res @ [\<lparr>content = ptr_add data start, len = n\<rparr>]))"
      by (subst (asm) parseBody_loop.simps) (simp add: Some)
    from "1.IH" [OF Some this] le show ?thesis
      by (auto simp add: ptr_add_def)
  qed
qed

lemma parseBody_views:
  assumes "s \<in> set (ArrayMessage.result (parseBody m data bytes))"
  shows "s \<in> set (ArrayMessage.result m) \<or>
         (fst (content s) = fst data \<and> snd data \<le> snd (content s) \<and>
          snd (content s) + len s < snd data + length bytes)"
  using parseBody_loop_views [of s data bytes 0 "ArrayMessage.result m"] assms
  by (simp add: parseBody_def)

text \<open>
  C4. A reader in \<^verbatim>\<open>READING_BODY\<close> (its buffer shorter than the header's target
  length, as it always is in that state) is fed the rest of a chunk from position \<open>c\<close>;
  \<^verbatim>\<open>feed\<close> itself starts at \<open>c = 0\<close>, and continues at the end of the header when the
  header came in the same chunk. If the buffer is empty and at least the target length
  remains in the chunk, the reader is \<^verbatim>\<open>DONE\<close> after consuming the target length, its
  buffer is still empty, and its result views point into the caller's chunk, inside
  the consumed bytes (for a scalar the one view is all of them). Otherwise it appends
  to the buffer the remaining bytes, at most as many as are still needed, and it is
  \<^verbatim>\<open>DONE\<close> exactly when the buffer has the target length, with result views into its
  own buffer.
\<close>

theorem zero_copy_or_buffered:
  fixes a :: ArrayMessage and m :: ScalarMessage and bytes bytes' :: "byte list"
  assumes "ArrayMessage.state a = READING_BODY"
    and "length (ArrayMessage.buffer a) < unat (Uint16Message_value (ArrayMessage.headerReader a))"
    and "c \<le> length bytes"
    and "ScalarMessage.state m = READING_BODY"
    and "length (ScalarMessage.buffer m) < unat (Uint32Message_value (ScalarMessage.headerReader m))"
    and "c' \<le> length bytes'"
  shows
    "(let v = unat (Uint16Message_value (ArrayMessage.headerReader a));
          k = min (length bytes - c) (v - length (ArrayMessage.buffer a));
          b = ArrayMessage.buffer a @ take k (drop c bytes);
          zc = parseBody a (ptr_add data c) (take v (drop c bytes));
          ob = parseBody (a\<lparr>ArrayMessage.buffer := b\<rparr>) (OwnBuffer, 0) b
      in (ArrayMessage.buffer a = [] \<and> v \<le> length bytes - c \<longrightarrow>
            ArrayMessage_feed_loop h a data bytes c = Some (c + v, zc\<lparr>ArrayMessage.state := DONE\<rparr>) \<and>
            ArrayMessage.buffer zc = [] \<and>
            (\<forall>s \<in> set (ArrayMessage.result zc) - set (ArrayMessage.result a).
               fst (content s) = fst data \<and> snd data + c \<le> snd (content s) \<and>
               snd (content s) + len s \<le> snd data + c + v)) \<and>
         (\<not> (ArrayMessage.buffer a = [] \<and> v \<le> length bytes - c) \<longrightarrow>
            ArrayMessage_feed_loop h a data bytes c =
              Some (c + k, if length b = v then ob\<lparr>ArrayMessage.state := DONE\<rparr>
                           else a\<lparr>ArrayMessage.buffer := b\<rparr>) \<and>
            ArrayMessage.buffer ob = b \<and>
            (\<forall>s \<in> set (ArrayMessage.result ob) - set (ArrayMessage.result a).
               fst (content s) = OwnBuffer \<and> snd (content s) + len s \<le> length b))) \<and>
     (let v = unat (Uint32Message_value (ScalarMessage.headerReader m));
          k = min (length bytes' - c') (v - length (ScalarMessage.buffer m));
          b = ScalarMessage.buffer m @ take k (drop c' bytes')
      in (ScalarMessage.buffer m = [] \<and> v \<le> length bytes' - c' \<longrightarrow>
            ScalarMessage_feed_loop h m data' bytes' c' =
              Some (c' + v, m\<lparr>ScalarMessage.result := \<lparr>content = ptr_add data' c', len = v\<rparr>,
                              ScalarMessage.state := DONE\<rparr>)) \<and>
         (\<not> (ScalarMessage.buffer m = [] \<and> v \<le> length bytes' - c') \<longrightarrow>
            ScalarMessage_feed_loop h m data' bytes' c' =
              Some (c' + k,
                if length b = v then
                  m\<lparr>ScalarMessage.buffer := b,
                    ScalarMessage.result := \<lparr>content = (OwnBuffer, 0), len = length b\<rparr>,
                    ScalarMessage.state := DONE\<rparr>
                else m\<lparr>ScalarMessage.buffer := b\<rparr>)))"
proof -
  define v where "v = unat (Uint16Message_value (ArrayMessage.headerReader a))"
  define k where "k = min (length bytes - c) (v - length (ArrayMessage.buffer a))"
  define b where "b = ArrayMessage.buffer a @ take k (drop c bytes)"
  define zc where "zc = parseBody a (ptr_add data c) (take v (drop c bytes))"
  define ob where "ob = parseBody (a\<lparr>ArrayMessage.buffer := b\<rparr>) (OwnBuffer, 0) b"
  have A1: "ArrayMessage_feed_loop h a data bytes c = Some (c + v, zc\<lparr>ArrayMessage.state := DONE\<rparr>) \<and>
            ArrayMessage.buffer zc = [] \<and>
            (\<forall>s \<in> set (ArrayMessage.result zc) - set (ArrayMessage.result a).
               fst (content s) = fst data \<and> snd data + c \<le> snd (content s) \<and>
               snd (content s) + len s \<le> snd data + c + v)"
    if t: "ArrayMessage.buffer a = [] \<and> v \<le> length bytes - c"
  proof (intro conjI ballI)
    have pos: "0 < v" using assms(2) by (simp add: v_def)
    from ArrayMessage_feed_loop_zero_copy [OF assms(1) _ v_def pos, of bytes c h data] t
    show "ArrayMessage_feed_loop h a data bytes c = Some (c + v, zc\<lparr>ArrayMessage.state := DONE\<rparr>)"
      by (simp add: zc_def)
    show "ArrayMessage.buffer zc = []" using t by (simp add: zc_def)
    fix s assume "s \<in> set (ArrayMessage.result zc) - set (ArrayMessage.result a)"
    then have "s \<in> set (ArrayMessage.result (parseBody a (ptr_add data c) (take v (drop c bytes))))"
      and "s \<notin> set (ArrayMessage.result a)"
      by (simp_all add: zc_def)
    from parseBody_views [OF this(1)] this(2) t
    show "fst (content s) = fst data" "snd data + c \<le> snd (content s)"
      "snd (content s) + len s \<le> snd data + c + v"
      by (auto simp add: ptr_add_def)
  qed
  have A2: "ArrayMessage_feed_loop h a data bytes c =
              Some (c + k, if length b = v then ob\<lparr>ArrayMessage.state := DONE\<rparr>
                           else a\<lparr>ArrayMessage.buffer := b\<rparr>) \<and>
            ArrayMessage.buffer ob = b \<and>
            (\<forall>s \<in> set (ArrayMessage.result ob) - set (ArrayMessage.result a).
               fst (content s) = OwnBuffer \<and> snd (content s) + len s \<le> length b)"
    if f: "\<not> (ArrayMessage.buffer a = [] \<and> v \<le> length bytes - c)"
  proof (intro conjI ballI)
    from ArrayMessage_feed_loop_buffered [OF assms(1) f [unfolded v_def] assms(2,3), of h data]
    show "ArrayMessage_feed_loop h a data bytes c =
              Some (c + k, if length b = v then ob\<lparr>ArrayMessage.state := DONE\<rparr>
                           else a\<lparr>ArrayMessage.buffer := b\<rparr>)"
      by (simp add: v_def k_def b_def ob_def)
    show "ArrayMessage.buffer ob = b" by (simp add: ob_def)
    fix s assume "s \<in> set (ArrayMessage.result ob) - set (ArrayMessage.result a)"
    then have "s \<in> set (ArrayMessage.result (parseBody (a\<lparr>ArrayMessage.buffer := b\<rparr>) (OwnBuffer, 0) b))"
      and "s \<notin> set (ArrayMessage.result a)"
      by (simp_all add: ob_def)
    from parseBody_views [OF this(1)] this(2)
    show "fst (content s) = OwnBuffer" "snd (content s) + len s \<le> length b"
      by auto
  qed
  define v' where "v' = unat (Uint32Message_value (ScalarMessage.headerReader m))"
  define k' where "k' = min (length bytes' - c') (v' - length (ScalarMessage.buffer m))"
  define b' where "b' = ScalarMessage.buffer m @ take k' (drop c' bytes')"
  have S1: "ScalarMessage_feed_loop h m data' bytes' c' =
              Some (c' + v', m\<lparr>ScalarMessage.result := \<lparr>content = ptr_add data' c', len = v'\<rparr>,
                              ScalarMessage.state := DONE\<rparr>)"
    if t: "ScalarMessage.buffer m = [] \<and> v' \<le> length bytes' - c'"
  proof -
    have pos: "0 < v'" using assms(5) by (simp add: v'_def)
    from ScalarMessage_feed_loop_zero_copy [OF assms(4) _ v'_def pos, of bytes' c' h data'] t
    show ?thesis by simp
  qed
  have S2: "ScalarMessage_feed_loop h m data' bytes' c' =
              Some (c' + k',
                if length b' = v' then
                  m\<lparr>ScalarMessage.buffer := b',
                    ScalarMessage.result := \<lparr>content = (OwnBuffer, 0), len = length b'\<rparr>,
                    ScalarMessage.state := DONE\<rparr>
                else m\<lparr>ScalarMessage.buffer := b'\<rparr>)"
    if f: "\<not> (ScalarMessage.buffer m = [] \<and> v' \<le> length bytes' - c')"
    using ScalarMessage_feed_loop_buffered [OF assms(4) f [unfolded v'_def] assms(5,6), of h data']
    by (simp add: v'_def k'_def b'_def)
  from A1 A2 S1 S2 show ?thesis
    unfolding Let_def v_def [symmetric] k_def [symmetric] b_def [symmetric] zc_def [symmetric]
      ob_def [symmetric] v'_def [symmetric] k'_def [symmetric] b'_def [symmetric]
    by blast
qed

text \<open>
  An array body taken from the chunk that also held the header, a scalar body that
  stays incomplete, an array body completed in the buffer, and a scalar body taken
  from the chunk.
\<close>

theorem zero_copy_or_buffered_witness:
  "ArrayMessage_feed_loop LittleEndian
     \<lparr>toReserve = 0, maxSize = 0, headerReader = \<lparr>Uint16Message.val = 4, consumed = 2\<rparr>,
      state = READING_BODY, error = 0, buffer = [], result = []\<rparr>
     (CallerData 0, 0) [0, 4, 97, 0, 98, 0] 2
   = Some (6,
     \<lparr>toReserve = 0, maxSize = 0, headerReader = \<lparr>Uint16Message.val = 4, consumed = 2\<rparr>,
      state = DONE, error = 0, buffer = [],
      result = [\<lparr>content = (CallerData 0, 2), len = 1\<rparr>,
                \<lparr>content = (CallerData 0, 4), len = 1\<rparr>]\<rparr>) \<and>
   ScalarMessage_feed_loop LittleEndian
     \<lparr>ScalarMessage.state = READING_BODY, error = 0, maxSize = 0,
      headerReader = \<lparr>Uint32Message.val = 5, consumed = 4\<rparr>, buffer = [104],
      result = \<lparr>content = (StaticEmpty, 0), len = 0\<rparr>\<rparr>
     (CallerData 1, 0) [101, 108] 0
   = Some (2,
     \<lparr>ScalarMessage.state = READING_BODY, error = 0, maxSize = 0,
      headerReader = \<lparr>Uint32Message.val = 5, consumed = 4\<rparr>, buffer = [104, 101, 108],
      result = \<lparr>content = (StaticEmpty, 0), len = 0\<rparr>\<rparr>) \<and>
   ArrayMessage_feed_loop LittleEndian
     \<lparr>toReserve = 0, maxSize = 0, headerReader = \<lparr>Uint16Message.val = 4, consumed = 2\<rparr>,
      state = READING_BODY, error = 0, buffer = [97, 0], result = []\<rparr>
     (CallerData 1, 0) [98, 0, 7] 0
   = Some (2,
     \<lparr>toReserve = 0, maxSize = 0, headerReader = \<lparr>Uint16Message.val = 4, consumed = 2\<rparr>,
      state = DONE, error = 0, buffer = [97, 0, 98, 0],
      result = [\<lparr>content = (OwnBuffer, 0), len = 1\<rparr>,
                \<lparr>content = (OwnBuffer, 2), len = 1\<rparr>]\<rparr>) \<and>
   ScalarMessage_feed_loop LittleEndian
     \<lparr>ScalarMessage.state = READING_BODY, error = 0, maxSize = 0,
      headerReader = \<lparr>Uint32Message.val = 2, consumed = 4\<rparr>, buffer = [],
      result = \<lparr>content = (StaticEmpty, 0), len = 0\<rparr>\<rparr>
     (CallerData 0, 0) [0, 0, 0, 2, 104, 105, 7] 4
   = Some (6,
     \<lparr>ScalarMessage.state = DONE, error = 0, maxSize = 0,
      headerReader = \<lparr>Uint32Message.val = 2, consumed = 4\<rparr>, buffer = [],
      result = \<lparr>content = (CallerData 0, 4), len = 2\<rparr>\<rparr>)"
  using
    zero_copy_or_buffered [of
      "\<lparr>toReserve = 0, maxSize = 0, headerReader = \<lparr>Uint16Message.val = 4, consumed = 2\<rparr>,
        state = READING_BODY, error = 0, buffer = [], result = []\<rparr>"
      2 "[0, 4, 97, 0, 98, 0]"
      "\<lparr>ScalarMessage.state = READING_BODY, error = 0, maxSize = 0,
        headerReader = \<lparr>Uint32Message.val = 5, consumed = 4\<rparr>, buffer = [104],
        result = \<lparr>content = (StaticEmpty, 0), len = 0\<rparr>\<rparr>"
      0 "[101, 108]" "(CallerData 0, 0)" LittleEndian "(CallerData 1, 0)"]
    zero_copy_or_buffered [of
      "\<lparr>toReserve = 0, maxSize = 0, headerReader = \<lparr>Uint16Message.val = 4, consumed = 2\<rparr>,
        state = READING_BODY, error = 0, buffer = [97, 0], result = []\<rparr>"
      0 "[98, 0, 7]"
      "\<lparr>ScalarMessage.state = READING_BODY, error = 0, maxSize = 0,
        headerReader = \<lparr>Uint32Message.val = 2, consumed = 4\<rparr>, buffer = [],
        result = \<lparr>content = (StaticEmpty, 0), len = 0\<rparr>\<rparr>"
      4 "[0, 0, 0, 2, 104, 105, 7]" "(CallerData 1, 0)" LittleEndian "(CallerData 0, 0)"]
  by (simp add: Uint16Message_value_def Uint32Message_value_def Let_def parseBody_def
      parseBody_loop.simps ptr_add_def)

section \<open>How much feed consumes\<close>

lemma Uint16Message_feed_bound:
  "Uint16Message.consumed m \<le> 2 \<Longrightarrow>
   Uint16Message.consumed (snd (Uint16Message_feed h m d)) \<le> 2"
  by (simp add: Uint16Message_feed_eq Let_def)

lemma Uint32Message_feed_bound:
  "Uint32Message.consumed m \<le> 4 \<Longrightarrow>
   Uint32Message.consumed (snd (Uint32Message_feed h m d)) \<le> 4"
  by (simp add: Uint32Message_feed_eq Let_def)

lemma Uint16Message_feed_done:
  "Uint16Message_done m \<Longrightarrow> Uint16Message_feed h m d = (0, m)"
  by (simp add: Uint16Message_feed_eq Let_def Uint16Message_done_def)

lemma Uint32Message_feed_done:
  "Uint32Message_done m \<Longrightarrow> Uint32Message_feed h m d = (0, m)"
  by (simp add: Uint32Message_feed_eq Let_def Uint32Message_done_def)

lemma ArrayMessage_wf_init: "ArrayMessage_wf (ArrayMessage_init v0 e0)"
  by (simp add: ArrayMessage_wf_def ArrayMessage_init_def Uint16Message_init_def)

lemma ArrayMessage_wf_reset:
  "ArrayMessage_wf (ArrayMessage_reset m)" "\<not> ArrayMessage_done (ArrayMessage_reset m)"
  by (simp_all add: ArrayMessage_wf_def ArrayMessage_reset_def Uint16Message_reset_def
      ArrayMessage_done_def)

lemma ArrayMessage_wf_setMaxSize:
  "ArrayMessage_wf m \<Longrightarrow> ArrayMessage_wf (ArrayMessage_setMaxSize m n)"
  by (simp add: ArrayMessage_wf_def ArrayMessage_setMaxSize_def)

lemma ArrayMessage_wf_reserve:
  "ArrayMessage_wf m \<Longrightarrow> ArrayMessage_wf (ArrayMessage_reserve m n)"
  by (simp add: ArrayMessage_wf_def ArrayMessage_reserve_def)

lemma ArrayMessage_feed_total:
  "ArrayMessage_wf m \<Longrightarrow> \<exists>n m'. ArrayMessage_feed h m data bytes = Some (n, m')"
  using ArrayMessage_feed_consumes [of m h data bytes] by blast

lemma ArrayMessage_feed_wf:
  "ArrayMessage_wf m \<Longrightarrow> ArrayMessage_feed h m data bytes = Some (n, m') \<Longrightarrow> ArrayMessage_wf m'"
  using ArrayMessage_feed_consumes [of m h data bytes] by auto

lemma ScalarMessage_wf_init: "ScalarMessage_wf (ScalarMessage_init mx v0 e0)"
  by (simp add: ScalarMessage_wf_def ScalarMessage_init_def Uint32Message_init_def)

lemma ScalarMessage_wf_reset:
  "ScalarMessage_wf (ScalarMessage_reset m z)" "\<not> ScalarMessage_done (ScalarMessage_reset m z)"
  by (simp_all add: ScalarMessage_wf_def ScalarMessage_reset_def Uint32Message_reset_def
      ScalarMessage_done_def Let_def)

lemma ScalarMessage_wf_setMaxSize:
  "ScalarMessage_wf m \<Longrightarrow> ScalarMessage_wf (ScalarMessage_setMaxSize m n)"
  by (simp add: ScalarMessage_wf_def ScalarMessage_setMaxSize_def)

lemma ScalarMessage_feed_total:
  "ScalarMessage_wf m \<Longrightarrow> \<exists>n m'. ScalarMessage_feed h m data bytes = Some (n, m')"
  using ScalarMessage_feed_consumes [of m h data bytes] by blast

lemma ScalarMessage_feed_wf:
  "ScalarMessage_wf m \<Longrightarrow> ScalarMessage_feed h m data bytes = Some (n, m') \<Longrightarrow> ScalarMessage_wf m'"
  using ScalarMessage_feed_consumes [of m h data bytes] by auto

text \<open>
  C6. An integer reader consumes exactly \<open>min(size, width - consumed)\<close> bytes, and
  \<open>consumed\<close> stays within the width. A framed reader returns from \<^verbatim>\<open>feed\<close> having
  consumed no more than it was given, all of it unless it is done, and no more than
  what the message still needs: the rest of the body while reading the body; the rest
  of the header, and the body that the header announces if the header is accepted in
  this call, while reading the header. Once a reader is done, \<^verbatim>\<open>feed\<close> consumes 0
  bytes and leaves the reader as it is; \<^verbatim>\<open>reset\<close> is what makes it not done again
  (lemmas \<open>ArrayMessage_wf_reset\<close>, \<open>ScalarMessage_wf_reset\<close>).
\<close>

theorem feed_consumption:
  fixes u16 :: Uint16Message and u32 :: Uint32Message and a :: ArrayMessage and m :: ScalarMessage
  assumes "Uint16Message.consumed u16 \<le> 2" and "Uint32Message.consumed u32 \<le> 4"
    and "ArrayMessage_wf a" and "ScalarMessage_wf m"
  shows
    "(fst (Uint16Message_feed h u16 d) = min (length d) (2 - Uint16Message.consumed u16) \<and>
      Uint16Message.consumed (snd (Uint16Message_feed h u16 d)) \<le> 2 \<and>
      (Uint16Message_done u16 \<longrightarrow> Uint16Message_feed h u16 d = (0, u16))) \<and>
     (fst (Uint32Message_feed h u32 d) = min (length d) (4 - Uint32Message.consumed u32) \<and>
      Uint32Message.consumed (snd (Uint32Message_feed h u32 d)) \<le> 4 \<and>
      (Uint32Message_done u32 \<longrightarrow> Uint32Message_feed h u32 d = (0, u32))) \<and>
     (\<exists>n a'. ArrayMessage_feed h a data d = Some (n, a') \<and> ArrayMessage_wf a' \<and>
        n \<le> length d \<and>
        (\<not> ArrayMessage_done a' \<longrightarrow> n = length d) \<and>
        (ArrayMessage.state a = READING_BODY \<longrightarrow>
           n \<le> unat (Uint16Message_value (ArrayMessage.headerReader a))
                 - length (ArrayMessage.buffer a)) \<and>
        (ArrayMessage.state a = READING_HEADER \<longrightarrow>
           n \<le> (2 - Uint16Message.consumed (ArrayMessage.headerReader a))
                 + (if ArrayMessage.state a' = READING_BODY \<or> ArrayMessage.state a' = DONE
                    then unat (Uint16Message_value (ArrayMessage.headerReader a')) else 0)) \<and>
        (ArrayMessage_done a \<longrightarrow> n = 0 \<and> a' = a)) \<and>
     (\<exists>n m'. ScalarMessage_feed h m data d = Some (n, m') \<and> ScalarMessage_wf m' \<and>
        n \<le> length d \<and>
        (\<not> ScalarMessage_done m' \<longrightarrow> n = length d) \<and>
        (ScalarMessage.state m = READING_BODY \<longrightarrow>
           n \<le> unat (Uint32Message_value (ScalarMessage.headerReader m))
                 - length (ScalarMessage.buffer m)) \<and>
        (ScalarMessage.state m = READING_HEADER \<longrightarrow>
           n \<le> (4 - Uint32Message.consumed (ScalarMessage.headerReader m))
                 + (if ScalarMessage.state m' = READING_BODY \<or> ScalarMessage.state m' = DONE
                    then unat (Uint32Message_value (ScalarMessage.headerReader m')) else 0)) \<and>
        (ScalarMessage_done m \<longrightarrow> n = 0 \<and> m' = m))"
proof (intro conjI)
  show "fst (Uint16Message_feed h u16 d) = min (length d) (2 - Uint16Message.consumed u16)"
    by (simp add: Uint16Message_feed_eq Let_def)
  show "Uint16Message.consumed (snd (Uint16Message_feed h u16 d)) \<le> 2"
    by (rule Uint16Message_feed_bound [OF assms(1)])
  show "Uint16Message_done u16 \<longrightarrow> Uint16Message_feed h u16 d = (0, u16)"
    by (simp add: Uint16Message_feed_done)
  show "fst (Uint32Message_feed h u32 d) = min (length d) (4 - Uint32Message.consumed u32)"
    by (simp add: Uint32Message_feed_eq Let_def)
  show "Uint32Message.consumed (snd (Uint32Message_feed h u32 d)) \<le> 4"
    by (rule Uint32Message_feed_bound [OF assms(2)])
  show "Uint32Message_done u32 \<longrightarrow> Uint32Message_feed h u32 d = (0, u32)"
    by (simp add: Uint32Message_feed_done)
qed (rule ArrayMessage_feed_consumes [OF assms(3)], rule ScalarMessage_feed_consumes [OF assms(4)])

text \<open>Readers that are done, and readers in the middle of a header or a body.\<close>

theorem feed_consumption_witness:
  "Uint16Message_feed LittleEndian \<lparr>Uint16Message.val = 258, consumed = 2\<rparr> [1, 2, 3]
     = (0, \<lparr>Uint16Message.val = 258, consumed = 2\<rparr>) \<and>
   fst (Uint32Message_feed LittleEndian \<lparr>Uint32Message.val = 0, consumed = 1\<rparr> [1, 2, 3, 4, 5]) = 3 \<and>
   ArrayMessage_feed LittleEndian
     \<lparr>toReserve = 0, maxSize = 0, headerReader = \<lparr>Uint16Message.val = 0, consumed = 2\<rparr>,
      state = DONE, error = 0, buffer = [], result = []\<rparr> (CallerData 0, 0) [1, 2, 3]
     = Some (0,
     \<lparr>toReserve = 0, maxSize = 0, headerReader = \<lparr>Uint16Message.val = 0, consumed = 2\<rparr>,
      state = DONE, error = 0, buffer = [], result = []\<rparr>) \<and>
   (\<exists>n m'. ScalarMessage_feed LittleEndian
       \<lparr>ScalarMessage.state = READING_BODY, error = 0, maxSize = 0,
        headerReader = \<lparr>Uint32Message.val = 5, consumed = 4\<rparr>, buffer = [104, 101, 108],
        result = \<lparr>content = (StaticEmpty, 0), len = 0\<rparr>\<rparr> (CallerData 0, 0) [1, 2, 3]
       = Some (n, m') \<and> n \<le> 2) \<and>
   Uint32Message_feed BigEndian \<lparr>Uint32Message.val = 7, consumed = 4\<rparr> [9]
     = (0, \<lparr>Uint32Message.val = 7, consumed = 4\<rparr>) \<and>
   (\<exists>n a'. ArrayMessage_feed BigEndian (ArrayMessage_init 0 0) (CallerData 0, 0) [9]
       = Some (n, a') \<and> ArrayMessage_wf a' \<and> n \<le> 1) \<and>
   ScalarMessage_feed BigEndian
     \<lparr>ScalarMessage.state = ERROR, error = 0, maxSize = 1,
      headerReader = \<lparr>Uint32Message.val = 5, consumed = 4\<rparr>, buffer = [],
      result = \<lparr>content = (StaticEmpty, 0), len = 0\<rparr>\<rparr> (CallerData 0, 0) [9]
     = Some (0,
     \<lparr>ScalarMessage.state = ERROR, error = 0, maxSize = 1,
      headerReader = \<lparr>Uint32Message.val = 5, consumed = 4\<rparr>, buffer = [],
      result = \<lparr>content = (StaticEmpty, 0), len = 0\<rparr>\<rparr>)"
proof -
  let ?u16 = "\<lparr>Uint16Message.val = 258, consumed = 2\<rparr>"
  let ?u32 = "\<lparr>Uint32Message.val = 0, consumed = 1\<rparr>"
  let ?a = "\<lparr>toReserve = 0, maxSize = 0, headerReader = \<lparr>Uint16Message.val = 0, consumed = 2\<rparr>,
      state = DONE, error = 0, buffer = [], result = []\<rparr>"
  let ?m = "\<lparr>ScalarMessage.state = READING_BODY, error = 0, maxSize = 0,
        headerReader = \<lparr>Uint32Message.val = 5, consumed = 4\<rparr>, buffer = [104, 101, 108],
        result = \<lparr>content = (StaticEmpty, 0), len = 0\<rparr>\<rparr>"
  have h1: "Uint16Message.consumed ?u16 \<le> 2" "Uint32Message.consumed ?u32 \<le> 4"
    "ArrayMessage_wf ?a" "ScalarMessage_wf ?m"
    by (simp_all add: ArrayMessage_wf_def ScalarMessage_wf_def Uint32Message_value_def)
  note T1 = feed_consumption [OF h1, of LittleEndian]
  have 1: "Uint16Message_feed LittleEndian ?u16 [1, 2, 3] = (0, ?u16)"
    using T1 [of "[1, 2, 3]" "(CallerData 0, 0)"]
    by (simp add: Uint16Message_done_def)
  have 2: "fst (Uint32Message_feed LittleEndian ?u32 [1, 2, 3, 4, 5]) = 3"
    using T1 [of "[1, 2, 3, 4, 5]" "(CallerData 0, 0)"]
    by simp
  have 3: "ArrayMessage_feed LittleEndian ?a (CallerData 0, 0) [1, 2, 3] = Some (0, ?a)"
    using T1 [of "[1, 2, 3]" "(CallerData 0, 0)"]
    by (auto simp add: ArrayMessage_done_def)
  have 4: "\<exists>n m'. ScalarMessage_feed LittleEndian ?m (CallerData 0, 0) [1, 2, 3] = Some (n, m') \<and> n \<le> 2"
    using T1 [of "[1, 2, 3]" "(CallerData 0, 0)"]
    by (auto simp add: Uint32Message_value_def)
  let ?v32 = "\<lparr>Uint32Message.val = 7, consumed = 4\<rparr>"
  let ?e = "\<lparr>ScalarMessage.state = ERROR, error = 0, maxSize = 1,
      headerReader = \<lparr>Uint32Message.val = 5, consumed = 4\<rparr>, buffer = [],
      result = \<lparr>content = (StaticEmpty, 0), len = 0\<rparr>\<rparr>"
  have h2: "Uint16Message.consumed (Uint16Message_init 0) \<le> 2" "Uint32Message.consumed ?v32 \<le> 4"
    "ArrayMessage_wf (ArrayMessage_init 0 0)" "ScalarMessage_wf ?e"
    by (simp_all add: ArrayMessage_wf_init ScalarMessage_wf_def Uint16Message_init_def)
  note T2 = feed_consumption [OF h2, of BigEndian "[9]" "(CallerData 0, 0)"]
  have 5: "Uint32Message_feed BigEndian ?v32 [9] = (0, ?v32)"
    using T2 by (simp add: Uint32Message_done_def)
  have 6: "\<exists>n a'. ArrayMessage_feed BigEndian (ArrayMessage_init 0 0) (CallerData 0, 0) [9]
       = Some (n, a') \<and> ArrayMessage_wf a' \<and> n \<le> 1"
    using T2 by auto
  have 7: "ScalarMessage_feed BigEndian ?e (CallerData 0, 0) [9] = Some (0, ?e)"
    using T2 by (auto simp add: ScalarMessage_done_def)
  from 1 2 3 4 5 6 7 show ?thesis by blast
qed

section \<open>Submitting to the engine\<close>

lemma MAKE_REQUEST_spec:
  fixes w :: world and eio libev0 callback0 code
  assumes "world_wf w"
  defines "a \<equiv> next_addr w"
  defines "r \<equiv> MAKE_REQUEST eio w libev0 callback0 code"
  shows "(eio (code a) = None \<longrightarrow>
           fst r = None \<and> heap (snd r) = heap w \<and> scheduled (snd r) = scheduled w \<and>
           world_wf (snd r)) \<and>
         (\<forall>req. eio (code a) = Some req \<longrightarrow>
           fst r = Some req \<and>
           heap (snd r) = (heap w)(a \<mapsto> \<lparr>libev = libev0, callback = callback0, execute = None\<rparr>) \<and>
           scheduled (snd r) = scheduled w \<and> world_wf (snd r))"
proof -
  have fresh: "heap w a = None"
    using assms(1) by (auto simp add: world_wf_def a_def dom_def)
  then have "(heap w)(a := None) = heap w" by (simp add: fun_upd_idem)
  with assms(1) show ?thesis
    by (auto simp add: r_def MAKE_REQUEST_def new_Data_def delete_Data_def Let_def a_def
        world_wf_def split: if_splits intro: less_SucI)
qed

lemma MultiLibeio_custom_spec:
  fixes w :: world and eio libev0 execute0 pri callback0
  assumes "world_wf w"
  defines "a \<equiv> next_addr w"
  defines "r \<equiv> MultiLibeio_custom eio w libev0 execute0 pri callback0"
  shows "(eio (Eio_custom pri a) = None \<longrightarrow>
           fst r = None \<and> heap (snd r) = heap w \<and> scheduled (snd r) = scheduled w \<and>
           world_wf (snd r)) \<and>
         (\<forall>req. eio (Eio_custom pri a) = Some req \<longrightarrow>
           fst r = Some req \<and>
           heap (snd r) = (heap w)(a \<mapsto> \<lparr>libev = libev0, callback = callback0,
                                           execute = Some execute0\<rparr>) \<and>
           scheduled (snd r) = scheduled w \<and> world_wf (snd r))"
proof -
  have fresh: "heap w a = None"
    using assms(1) by (auto simp add: world_wf_def a_def dom_def)
  then have "(heap w)(a := None) = heap w" by (simp add: fun_upd_idem)
  with assms(1) show ?thesis
    by (auto simp add: r_def MultiLibeio_custom_def new_Data_def delete_Data_def Let_def a_def
        world_wf_def split: if_splits intro: less_SucI)
qed

lemma dispatch_not_live:
  "world_wf w \<Longrightarrow> next_addr w \<le> req_data req \<Longrightarrow> dispatch w req = None"
  by (auto simp add: dispatch_def world_wf_def dom_def split: option.splits)

lemma dispatch_schedules:
  "heap w (req_data req) = Some d \<Longrightarrow>
   dispatch w req =
     Some (0, w\<lparr>scheduled := scheduled w @ [(libev d, callback d, req)],
                heap := (heap w)(req_data req := None)\<rparr>)"
  by (simp add: dispatch_def delete_Data_def)

text \<open>
  C9. For \<^verbatim>\<open>open\<close>, \<^verbatim>\<open>read\<close> and \<^verbatim>\<open>write\<close> (in both builds) and \<^verbatim>\<open>custom\<close>: if the
  engine does not accept the submission, the call returns \<^verbatim>\<open>NULL\<close>, the context it
  allocated is no longer live (the live contexts are those of before the call), no
  callback has been handed to a reactor, and a completion hook for the freed context
  finds no context, so the callback is never invoked. If the engine accepts, the call
  returns the engine's request handle and the context is live.
\<close>

theorem submission_failure:
  fixes w :: world
  assumes "world_wf w"
  shows
    "\<forall>(call, ctx, r) \<in> set
        [(Eio_open path flags mode pri (next_addr w),
          \<lparr>libev = libev0, callback = callback0, execute = None\<rparr>,
          MultiLibeio_open eio w libev0 path flags mode pri callback0),
         (Eio_read fd buf length0 offset pri (next_addr w),
          \<lparr>libev = libev0, callback = callback0, execute = None\<rparr>,
          MultiLibeio_read False lockedPread eio w libev0 fd buf length0 offset pri callback0),
         (Eio_custom pri (next_addr w),
          \<lparr>libev = libev0, callback = callback0, execute = Some lockedPread\<rparr>,
          MultiLibeio_read True lockedPread eio w libev0 fd buf length0 offset pri callback0),
         (Eio_write fd buf length0 offset pri (next_addr w),
          \<lparr>libev = libev0, callback = callback0, execute = None\<rparr>,
          MultiLibeio_write False lockedPwrite eio w libev0 fd buf length0 offset pri callback0),
         (Eio_custom pri (next_addr w),
          \<lparr>libev = libev0, callback = callback0, execute = Some lockedPwrite\<rparr>,
          MultiLibeio_write True lockedPwrite eio w libev0 fd buf length0 offset pri callback0),
         (Eio_custom pri (next_addr w),
          \<lparr>libev = libev0, callback = callback0, execute = Some execute0\<rparr>,
          MultiLibeio_custom eio w libev0 execute0 pri callback0)].
       (eio call = None \<longrightarrow>
          fst r = None \<and> heap (snd r) = heap w \<and> scheduled (snd r) = scheduled w \<and>
          (\<forall>req. req_data req = next_addr w \<longrightarrow> dispatch (snd r) req = None)) \<and>
       (\<forall>req. eio call = Some req \<longrightarrow>
          fst r = Some req \<and> heap (snd r) = (heap w)(next_addr w \<mapsto> ctx) \<and>
          scheduled (snd r) = scheduled w)"
proof -
  have fresh: "heap w (next_addr w) = None"
    using assms by (auto simp add: world_wf_def dom_def)
  have nl: "heap w' = heap w \<Longrightarrow> req_data req = next_addr w \<Longrightarrow> dispatch w' req = None"
    for w' :: world and req
    using fresh by (simp add: dispatch_def)
  note M = MAKE_REQUEST_spec [OF assms, of eio _ libev0 callback0]
  note C = MultiLibeio_custom_spec [OF assms, of eio pri libev0 _ callback0]
  show ?thesis
    using M [of "Eio_open path flags mode pri"] M [of "Eio_read fd buf length0 offset pri"]
      M [of "Eio_write fd buf length0 offset pri"]
      C [of lockedPread] C [of lockedPwrite] C [of execute0]
    by (simp add: MultiLibeio_open_def MultiLibeio_read_def MultiLibeio_write_def nl)
qed

text \<open>An engine that refuses everything, and one that accepts everything.\<close>

theorem submission_failure_witness:
  "fst (MultiLibeio_open (\<lambda>c. None) \<lparr>heap = Map.empty, next_addr = 0, scheduled = []\<rparr>
          1 ''/tmp/x'' 0 0 0 7) = None \<and>
   heap (snd (MultiLibeio_open (\<lambda>c. None) \<lparr>heap = Map.empty, next_addr = 0, scheduled = []\<rparr>
          1 ''/tmp/x'' 0 0 0 7)) = Map.empty \<and>
   scheduled (snd (MultiLibeio_custom (\<lambda>c. None) \<lparr>heap = Map.empty, next_addr = 0, scheduled = []\<rparr>
          1 5 0 7)) = [] \<and>
   fst (MultiLibeio_read True 3 (\<lambda>c. Some \<lparr>submitted_as = c, req_data = 0\<rparr>)
          \<lparr>heap = Map.empty, next_addr = 0, scheduled = []\<rparr> 1 4 0 16 0 0 7)
     = Some \<lparr>submitted_as = Eio_custom 0 0, req_data = 0\<rparr> \<and>
   heap (snd (MultiLibeio_read True 3 (\<lambda>c. Some \<lparr>submitted_as = c, req_data = 0\<rparr>)
          \<lparr>heap = Map.empty, next_addr = 0, scheduled = []\<rparr> 1 4 0 16 0 0 7))
     = [0 \<mapsto> \<lparr>libev = 1, callback = 7, execute = Some 3\<rparr>]"
proof -
  let ?w = "\<lparr>heap = Map.empty, next_addr = 0, scheduled = []\<rparr>"
  have wf: "world_wf ?w" by (simp add: world_wf_def)
  from submission_failure [OF wf, of "''/tmp/x''" 0 0 0 1 7 "\<lambda>c. None" 4 0 16 0 3 3 5]
  have 1: "fst (MultiLibeio_open (\<lambda>c. None) ?w 1 ''/tmp/x'' 0 0 0 7) = None \<and>
     heap (snd (MultiLibeio_open (\<lambda>c. None) ?w 1 ''/tmp/x'' 0 0 0 7)) = Map.empty \<and>
     scheduled (snd (MultiLibeio_custom (\<lambda>c. None) ?w 1 5 0 7)) = []"
    by simp
  from submission_failure [OF wf, of "''/tmp/x''" 0 0 0 1 7
      "\<lambda>c. Some \<lparr>submitted_as = c, req_data = 0\<rparr>" 4 0 16 0 3 3 5]
  have 2: "fst (MultiLibeio_read True 3 (\<lambda>c. Some \<lparr>submitted_as = c, req_data = 0\<rparr>)
          ?w 1 4 0 16 0 0 7)
     = Some \<lparr>submitted_as = Eio_custom 0 0, req_data = 0\<rparr> \<and>
   heap (snd (MultiLibeio_read True 3 (\<lambda>c. Some \<lparr>submitted_as = c, req_data = 0\<rparr>)
          ?w 1 4 0 16 0 0 7))
     = [0 \<mapsto> \<lparr>libev = 1, callback = 7, execute = Some 3\<rparr>]"
    by simp
  from 1 2 show ?thesis by simp
qed

section \<open>The life cycle of the dispatcher\<close>

lemma dispatcher_step_shouldPoll:
  "shouldPoll d \<Longrightarrow> shouldPoll (dispatcher_step e d)"
  by (cases e) (simp_all add: MultiLibeio_init_def MultiLibeio_shutdown_def wantPoll_def)

lemma dispatcher_run_shouldPoll:
  "shouldPoll d \<Longrightarrow> shouldPoll (dispatcher_run es d)"
  unfolding dispatcher_run_def
  by (induction es arbitrary: d) (simp_all add: dispatcher_step_shouldPoll)

lemma shouldPoll_never_cleared:
  "WantPoll \<in> set es \<Longrightarrow> shouldPoll (dispatcher_run es d)"
proof (induction es arbitrary: d)
  case Nil
  then show ?case by simp
next
  case (Cons e es)
  show ?case
  proof (cases "e = WantPoll")
    case True
    have "shouldPoll (dispatcher_step WantPoll d)" by (simp add: wantPoll_def)
    from dispatcher_run_shouldPoll [OF this, of es] True show ?thesis
      by (simp add: dispatcher_run_def)
  next
    case False
    with Cons.prems have "WantPoll \<in> set es" by simp
    from Cons.IH [OF this, of "dispatcher_step e d"] show ?thesis
      by (simp add: dispatcher_run_def)
  qed
qed

text \<open>
  C10. \<^verbatim>\<open>shutdown\<close> restores \<^verbatim>\<open>thr\<close> and \<^verbatim>\<open>quit\<close> to their values before \<^verbatim>\<open>init\<close>, but
  nothing ever clears \<^verbatim>\<open>shouldPoll\<close>: after \<^verbatim>\<open>init\<close>, one call of the hook by the engine
  and \<^verbatim>\<open>shutdown\<close>, the flag is set although it was clear before \<^verbatim>\<open>init\<close>, and the
  dispatch thread of the next cycle polls at once where that of the first cycle
  waited.
\<close>

theorem shutdown_leaves_shouldPoll:
  "shouldPoll (dispatcher_run [Init, WantPoll, ThreadPass, Shutdown] dispatcher_initial) \<and>
   \<not> shouldPoll dispatcher_initial \<and>
   thr (dispatcher_run [Init, WantPoll, ThreadPass, Shutdown] dispatcher_initial)
     = thr dispatcher_initial \<and>
   quit (dispatcher_run [Init, WantPoll, ThreadPass, Shutdown] dispatcher_initial)
     = quit dispatcher_initial \<and>
   threadMain_next (MultiLibeio_init dispatcher_initial) = Wait \<and>
   threadMain_next (MultiLibeio_init
     (dispatcher_run [Init, WantPoll, ThreadPass, Shutdown] dispatcher_initial)) = Poll"
  by (simp add: dispatcher_run_def dispatcher_initial_def MultiLibeio_init_def
      MultiLibeio_shutdown_def wantPoll_def threadMain_next_def)


end
